theory Spec2Isabelle
  imports Main "HOL-Library.While_Combinator" "HOL-Library.AList"
begin

section \<open>Data model of the directed engine (directed.go)\<close>

text \<open>
  An edge as \<^verbatim>\<open>WeightedEdgeByHashes\<close> builds it: the two vertex values and the weight.
  The weight is only stored, never computed with, so Go's \<^verbatim>\<open>int\<close> is read as \<open>int\<close>.
\<close>

record 't Edge =
  Source :: 't
  Target :: 't
  Weight :: int

text \<open>
  A Go map is an association list: \<open>map_of\<close> reads a key, \<open>AList.update\<close> writes one
  (replacing the entry in place or appending a new one), \<^verbatim>\<open>range\<close> enumerates the keys
  in list order and \<^verbatim>\<open>len\<close> is the number of entries. Go leaves the iteration order
  open; every theorem below holds for every list, hence for every order.
\<close>

type_synonym ('k, 'v) gomap = "('k \<times> 'v) list"

text \<open>
  One constructor for each \<^verbatim>\<open>fmt.Errorf\<close> message of directed.go (the formatted
  operands are left out). \<open>CycleCheckFailed\<close> wraps the error of the cycle check (\<^verbatim>\<open>%w\<close>).
\<close>

datatype error =
    SourceVertexNotFound
  | TargetVertexNotFound
  | EdgeAlreadyExists
  | CycleCheckFailed error
  | EdgeCreatesCycle
  | StartVertexNotFound
  | VertexNotFound

text \<open>
  The struct \<^verbatim>\<open>directed[K, T]\<close>. Of \<^verbatim>\<open>properties\<close> the engine reads the flag
  \<^verbatim>\<open>isAcyclic\<close> only, which is kept as a field of its own.
\<close>

record ('k, 't) directed =
  hash :: "'t \<Rightarrow> 'k"
  isAcyclic :: bool
  vertices :: "('k, 't) gomap"
  edges :: "('k, ('k, 't Edge) gomap) gomap"
  outEdges :: "('k, ('k, 't Edge) gomap) gomap"
  inEdges :: "('k, ('k, 't Edge) gomap) gomap"

definition newDirected :: "('t \<Rightarrow> 'k) \<Rightarrow> bool \<Rightarrow> ('k, 't) directed" where
  "newDirected h enforce =
     \<lparr>hash = h, isAcyclic = enforce, vertices = [], edges = [], outEdges = [], inEdges = []\<rparr>"

section \<open>Vertices and edges\<close>

definition Vertex :: "('k, 't) directed \<Rightarrow> 't \<Rightarrow> ('k, 't) directed" where
  "Vertex d v = d\<lparr>vertices := AList.update (hash d v) v (vertices d)\<rparr>"

definition GetEdgeByHashes :: "('k, 't) directed \<Rightarrow> 'k \<Rightarrow> 'k \<Rightarrow> 't Edge option" where
  "GetEdgeByHashes d sourceHash targetHash =
     (case map_of (edges d) sourceHash of
        None \<Rightarrow> None
      | Some sourceEdges \<Rightarrow>
          (case map_of sourceEdges targetHash of
             Some edge \<Rightarrow> Some edge
           | None \<Rightarrow> None))"

definition GetEdge :: "('k, 't) directed \<Rightarrow> 't \<Rightarrow> 't \<Rightarrow> 't Edge option" where
  "GetEdge d source target = GetEdgeByHashes d (hash d source) (hash d target)"

text \<open>
  The statement pair \<^verbatim>\<open>if _, ok := m[a]; !ok { m[a] = make(...) }; m[a][b] = e\<close>,
  which \<^verbatim>\<open>addEdge\<close> runs on each of the three indices.
\<close>

definition store2 ::
  "('k, ('k, 'v) gomap) gomap \<Rightarrow> 'k \<Rightarrow> 'k \<Rightarrow> 'v \<Rightarrow> ('k, ('k, 'v) gomap) gomap" where
  "store2 m a b e =
     (let m1 = (case map_of m a of None \<Rightarrow> AList.update a [] m | Some _ \<Rightarrow> m);
          inner = (case map_of m1 a of None \<Rightarrow> [] | Some i \<Rightarrow> i)
      in AList.update a (AList.update b e inner) m1)"

definition addEdge ::
  "('k, 't) directed \<Rightarrow> 'k \<Rightarrow> 'k \<Rightarrow> 't Edge \<Rightarrow> ('k, 't) directed" where
  "addEdge d sourceHash targetHash edge =
     d\<lparr>edges := store2 (edges d) sourceHash targetHash edge,
       outEdges := store2 (outEdges d) sourceHash targetHash edge,
       inEdges := store2 (inEdges d) targetHash sourceHash edge\<rparr>"

definition predecessors :: "('k, 't) directed \<Rightarrow> 'k \<Rightarrow> 'k list" where
  "predecessors d vertexHash =
     (case map_of (inEdges d) vertexHash of
        None \<Rightarrow> []
      | Some inE \<Rightarrow> map fst inE)"

text \<open>The keys that \<^verbatim>\<open>range d.outEdges[h]\<close> enumerates (none when \<open>h\<close> has no entry).\<close>

definition adjacencies :: "('k, 't) directed \<Rightarrow> 'k \<Rightarrow> 'k list" where
  "adjacencies d h =
     (case map_of (outEdges d) h of
        None \<Rightarrow> []
      | Some outE \<Rightarrow> map fst outE)"

section \<open>Cycle pre-check\<close>

text \<open>
  The locals of the loop of \<^verbatim>\<open>CreatesCycleByHashes\<close>; \<open>cc_found\<close> is set where the
  loop body executes \<^verbatim>\<open>return true, nil\<close>.
\<close>

record 'k cc_state =
  cc_stack :: "'k list"
  cc_visited :: "'k set"
  cc_found :: bool

definition cc_cond :: "'k cc_state \<Rightarrow> bool" where
  "cc_cond st \<longleftrightarrow> \<not> cc_found st \<and> cc_stack st \<noteq> []"

definition cc_body :: "('k, 't) directed \<Rightarrow> 'k \<Rightarrow> 'k cc_state \<Rightarrow> 'k cc_state" where
  "cc_body d targetHash st =
     (let currentHash = last (cc_stack st);
          st1 = st\<lparr>cc_stack := butlast (cc_stack st)\<rparr>
      in if currentHash \<notin> cc_visited st1 then
           if currentHash = targetHash then st1\<lparr>cc_found := True\<rparr>
           else st1\<lparr>cc_visited := insert currentHash (cc_visited st1),
                    cc_stack := cc_stack st1 @ predecessors d currentHash\<rparr>
         else st1)"

definition cc_loop :: "('k, 't) directed \<Rightarrow> 'k \<Rightarrow> 'k cc_state \<Rightarrow> 'k cc_state option" where
  "cc_loop d targetHash st = while_option cc_cond (cc_body d targetHash) st"

text \<open>
  The result is \<open>None\<close> when the loop does not return; otherwise it is \<open>Inl e\<close> for
  \<^verbatim>\<open>(false, err)\<close> or \<open>Inr b\<close> for \<^verbatim>\<open>(b, nil)\<close>, together with the graph after the
  call (the method has a pointer receiver).
\<close>

definition CreatesCycleByHashes ::
  "('k, 't) directed \<Rightarrow> 'k \<Rightarrow> 'k \<Rightarrow> ((error + bool) \<times> ('k, 't) directed) option" where
  "CreatesCycleByHashes d sourceHash targetHash =
     (case map_of (vertices d) sourceHash of
        None \<Rightarrow> Some (Inl SourceVertexNotFound, d)
      | Some source \<Rightarrow>
          (case map_of (vertices d) targetHash of
             None \<Rightarrow> Some (Inl TargetVertexNotFound, d)
           | Some target \<Rightarrow>
               if sourceHash = targetHash then Some (Inr True, d)
               else map_option (\<lambda>st. (Inr (cc_found st), d))
                      (cc_loop d targetHash
                         \<lparr>cc_stack = [sourceHash], cc_visited = {}, cc_found = False\<rparr>)))"

definition CreatesCycle ::
  "('k, 't) directed \<Rightarrow> 't \<Rightarrow> 't \<Rightarrow> ((error + bool) \<times> ('k, 't) directed) option" where
  "CreatesCycle d source target = CreatesCycleByHashes d (hash d source) (hash d target)"

section \<open>Adding an edge\<close>

text \<open>
  The method returns its error (\<open>None\<close> for \<^verbatim>\<open>nil\<close>) together with the graph after the
  call. The outer \<open>option\<close> is \<open>None\<close> when the cycle check does not return.
\<close>

definition WeightedEdgeByHashes ::
  "('k, 't) directed \<Rightarrow> 'k \<Rightarrow> 'k \<Rightarrow> int \<Rightarrow> (error option \<times> ('k, 't) directed) option" where
  "WeightedEdgeByHashes d sourceHash targetHash weight =
     (case map_of (vertices d) sourceHash of
        None \<Rightarrow> Some (Some SourceVertexNotFound, d)
      | Some source \<Rightarrow>
          (case map_of (vertices d) targetHash of
             None \<Rightarrow> Some (Some TargetVertexNotFound, d)
           | Some target \<Rightarrow>
               if GetEdgeByHashes d sourceHash targetHash \<noteq> None
               then Some (Some EdgeAlreadyExists, d)
               else
                 let edge = \<lparr>Source = source, Target = target, Weight = weight\<rparr> in
                 if isAcyclic d then
                   (case CreatesCycleByHashes d sourceHash targetHash of
                      None \<Rightarrow> None
                    | Some (Inl err, d1) \<Rightarrow> Some (Some (CycleCheckFailed err), d1)
                    | Some (Inr createsCycle, d1) \<Rightarrow>
                        if createsCycle then Some (Some EdgeCreatesCycle, d1)
                        else Some (None, addEdge d1 sourceHash targetHash edge))
                 else Some (None, addEdge d sourceHash targetHash edge)))"

definition WeightedEdge ::
  "('k, 't) directed \<Rightarrow> 't \<Rightarrow> 't \<Rightarrow> int \<Rightarrow> (error option \<times> ('k, 't) directed) option" where
  "WeightedEdge d source target weight =
     WeightedEdgeByHashes d (hash d source) (hash d target) weight"

definition Edge ::
  "('k, 't) directed \<Rightarrow> 't \<Rightarrow> 't \<Rightarrow> (error option \<times> ('k, 't) directed) option" where
  "Edge d source target = WeightedEdge d source target 0"

definition EdgeByHashes ::
  "('k, 't) directed \<Rightarrow> 'k \<Rightarrow> 'k \<Rightarrow> (error option \<times> ('k, 't) directed) option" where
  "EdgeByHashes d sourceHash targetHash = WeightedEdgeByHashes d sourceHash targetHash 0"

text \<open>
  The mutating calls of the engine, and a sequence of them run in order. (\<^verbatim>\<open>Edge\<close>,
  \<^verbatim>\<open>WeightedEdge\<close> and \<^verbatim>\<open>EdgeByHashes\<close> are \<^verbatim>\<open>WeightedEdgeByHashes\<close> at other
  arguments.) A failed call returns its error to the caller, who goes on with the graph.
\<close>

datatype ('k, 't) call = AddVertex 't | AddEdge 'k 'k int

fun run :: "('k, 't) directed \<Rightarrow> ('k, 't) call list \<Rightarrow> ('k, 't) directed option" where
  "run d [] = Some d"
| "run d (AddVertex v # cs) = run (Vertex d v) cs"
| "run d (AddEdge s t w # cs) =
     (case WeightedEdgeByHashes d s t w of
        None \<Rightarrow> None
      | Some (_, d1) \<Rightarrow> run d1 cs)"

text \<open>The ordered pairs whose add succeeded while a sequence of calls ran, in order.\<close>

fun added :: "('k, 't) directed \<Rightarrow> ('k, 't) call list \<Rightarrow> ('k \<times> 'k) list" where
  "added d [] = []"
| "added d (AddVertex v # cs) = added (Vertex d v) cs"
| "added d (AddEdge s t w # cs) =
     (case WeightedEdgeByHashes d s t w of
        None \<Rightarrow> []
      | Some (None, d1) \<Rightarrow> (s, t) # added d1 cs
      | Some (Some e, d1) \<Rightarrow> added d1 cs)"

section \<open>Degree\<close>

definition DegreeByHash :: "('k, 't) directed \<Rightarrow> 'k \<Rightarrow> error + int" where
  "DegreeByHash d vertexHash =
     (case map_of (vertices d) vertexHash of
        None \<Rightarrow> Inl VertexNotFound
      | Some _ \<Rightarrow>
          (let degree = 0;
               degree = (case map_of (inEdges d) vertexHash of
                           Some inE \<Rightarrow> degree + int (length inE)
                         | None \<Rightarrow> degree);
               degree = (case map_of (outEdges d) vertexHash of
                           Some outE \<Rightarrow> degree + int (length outE)
                         | None \<Rightarrow> degree)
           in Inr degree))"

definition Degree :: "('k, 't) directed \<Rightarrow> 't \<Rightarrow> error + int" where
  "Degree d vertex = DegreeByHash d (hash d vertex)"

section \<open>Traversals\<close>

text \<open>
  The callback \<^verbatim>\<open>visit func(value T) bool\<close> is a closure: it may keep state of its own.
  It is a function from the vertex value and its state to the stop signal and its new
  state; it is taken to return and not to change the graph. \<open>vertexAt\<close> is \<^verbatim>\<open>d.vertices[h]\<close> read without the \<^verbatim>\<open>ok\<close> flag, which is the
  zero value of \<^verbatim>\<open>T\<close> (the parameter \<open>zeroT\<close>) at an absent key.
\<close>

type_synonym ('t, 's) visitor = "'t \<Rightarrow> 's \<Rightarrow> bool \<times> 's"

definition vertexAt :: "'t \<Rightarrow> ('k, 't) directed \<Rightarrow> 'k \<Rightarrow> 't" where
  "vertexAt zeroT d h = (case map_of (vertices d) h of None \<Rightarrow> zeroT | Some v \<Rightarrow> v)"

text \<open>
  The locals of the loop of \<^verbatim>\<open>DFSByHash\<close>, the state of the callback, and the flag set
  at \<^verbatim>\<open>break\<close>. Two fields observe the run and influence nothing: \<open>dfs_calls\<close> lists the
  identifiers the callback was invoked on, in order, and \<open>dfs_pushes\<close> counts the
  \<^verbatim>\<open>append\<close>s to the stack.
\<close>

record ('k, 's) dfs_state =
  dfs_stack :: "'k list"
  dfs_visited :: "'k set"
  dfs_cb :: 's
  dfs_stopped :: bool
  dfs_calls :: "'k list"
  dfs_pushes :: nat

definition dfs_cond :: "('k, 's) dfs_state \<Rightarrow> bool" where
  "dfs_cond st \<longleftrightarrow> \<not> dfs_stopped st \<and> dfs_stack st \<noteq> []"

definition dfs_body ::
  "'t \<Rightarrow> ('k, 't) directed \<Rightarrow> ('t, 's) visitor \<Rightarrow> ('k, 's) dfs_state \<Rightarrow> ('k, 's) dfs_state" where
  "dfs_body zeroT d visit st =
     (let currentHash = last (dfs_stack st);
          currentVertex = vertexAt zeroT d currentHash;
          st1 = st\<lparr>dfs_stack := butlast (dfs_stack st)\<rparr>
      in if currentHash \<notin> dfs_visited st1 then
           (case visit currentVertex (dfs_cb st1) of
              (stop, cb) \<Rightarrow>
                let st2 = st1\<lparr>dfs_cb := cb, dfs_calls := dfs_calls st1 @ [currentHash]\<rparr>
                in if stop then st2\<lparr>dfs_stopped := True\<rparr>
                   else st2\<lparr>dfs_visited := insert currentHash (dfs_visited st2),
                            dfs_stack := dfs_stack st2 @ adjacencies d currentHash,
                            dfs_pushes := dfs_pushes st2 + length (adjacencies d currentHash)\<rparr>)
         else st1)"

definition dfs_init :: "'k \<Rightarrow> 's \<Rightarrow> ('k, 's) dfs_state" where
  "dfs_init startHash cb =
     \<lparr>dfs_stack = [startHash], dfs_visited = {}, dfs_cb = cb, dfs_stopped = False,
      dfs_calls = [], dfs_pushes = 1\<rparr>"

definition dfs_loop ::
  "'t \<Rightarrow> ('k, 't) directed \<Rightarrow> ('t, 's) visitor \<Rightarrow> ('k, 's) dfs_state
     \<Rightarrow> ('k, 's) dfs_state option" where
  "dfs_loop zeroT d visit st = while_option dfs_cond (dfs_body zeroT d visit) st"

text \<open>
  A traversal returns its error (\<open>None\<close> for \<^verbatim>\<open>nil\<close>), the state of the callback after
  the call, and the identifiers the callback was invoked on.
\<close>

definition DFSByHash ::
  "'t \<Rightarrow> ('k, 't) directed \<Rightarrow> 'k \<Rightarrow> ('t, 's) visitor \<Rightarrow> 's
     \<Rightarrow> (error option \<times> 's \<times> 'k list) option" where
  "DFSByHash zeroT d startHash visit cb =
     (case map_of (vertices d) startHash of
        None \<Rightarrow> Some (Some StartVertexNotFound, cb, [])
      | Some _ \<Rightarrow>
          map_option (\<lambda>st. (None, dfs_cb st, dfs_calls st))
            (dfs_loop zeroT d visit (dfs_init startHash cb)))"

definition DFS ::
  "'t \<Rightarrow> ('k, 't) directed \<Rightarrow> 't \<Rightarrow> ('t, 's) visitor \<Rightarrow> 's
     \<Rightarrow> (error option \<times> 's \<times> 'k list) option" where
  "DFS zeroT d start visit cb = DFSByHash zeroT d (hash d start) visit cb"

text \<open>The same for \<^verbatim>\<open>BFSByHash\<close>; \<open>bfs_enqueues\<close> counts the \<^verbatim>\<open>append\<close>s to the queue.\<close>

record ('k, 's) bfs_state =
  bfs_queue :: "'k list"
  bfs_visited :: "'k set"
  bfs_cb :: 's
  bfs_stopped :: bool
  bfs_calls :: "'k list"
  bfs_enqueues :: nat

definition bfs_cond :: "('k, 's) bfs_state \<Rightarrow> bool" where
  "bfs_cond st \<longleftrightarrow> \<not> bfs_stopped st \<and> bfs_queue st \<noteq> []"

text \<open>One round of the inner loop over the adjacencies of the current vertex.\<close>

definition bfs_enqueue :: "'k \<Rightarrow> ('k, 's) bfs_state \<Rightarrow> ('k, 's) bfs_state" where
  "bfs_enqueue adjacency st =
     (if adjacency \<notin> bfs_visited st
      then st\<lparr>bfs_visited := insert adjacency (bfs_visited st),
              bfs_queue := bfs_queue st @ [adjacency],
              bfs_enqueues := bfs_enqueues st + 1\<rparr>
      else st)"

definition bfs_body ::
  "'t \<Rightarrow> ('k, 't) directed \<Rightarrow> ('t, 's) visitor \<Rightarrow> ('k, 's) bfs_state \<Rightarrow> ('k, 's) bfs_state" where
  "bfs_body zeroT d visit st =
     (let currentHash = hd (bfs_queue st);
          currentVertex = vertexAt zeroT d currentHash;
          st1 = st\<lparr>bfs_queue := tl (bfs_queue st)\<rparr>
      in case visit currentVertex (bfs_cb st1) of
           (stop, cb) \<Rightarrow>
             let st2 = st1\<lparr>bfs_cb := cb, bfs_calls := bfs_calls st1 @ [currentHash]\<rparr>
             in if stop then st2\<lparr>bfs_stopped := True\<rparr>
                else fold bfs_enqueue (adjacencies d currentHash) st2)"

definition bfs_init :: "'k \<Rightarrow> 's \<Rightarrow> ('k, 's) bfs_state" where
  "bfs_init startHash cb =
     \<lparr>bfs_queue = [startHash], bfs_visited = {startHash}, bfs_cb = cb, bfs_stopped = False,
      bfs_calls = [], bfs_enqueues = 1\<rparr>"

definition bfs_loop ::
  "'t \<Rightarrow> ('k, 't) directed \<Rightarrow> ('t, 's) visitor \<Rightarrow> ('k, 's) bfs_state
     \<Rightarrow> ('k, 's) bfs_state option" where
  "bfs_loop zeroT d visit st = while_option bfs_cond (bfs_body zeroT d visit) st"

definition BFSByHash ::
  "'t \<Rightarrow> ('k, 't) directed \<Rightarrow> 'k \<Rightarrow> ('t, 's) visitor \<Rightarrow> 's
     \<Rightarrow> (error option \<times> 's \<times> 'k list) option" where
  "BFSByHash zeroT d startHash visit cb =
     (case map_of (vertices d) startHash of
        None \<Rightarrow> Some (Some StartVertexNotFound, cb, [])
      | Some _ \<Rightarrow>
          map_option (\<lambda>st. (None, bfs_cb st, bfs_calls st))
            (bfs_loop zeroT d visit (bfs_init startHash cb)))"

definition BFS ::
  "'t \<Rightarrow> ('k, 't) directed \<Rightarrow> 't \<Rightarrow> ('t, 's) visitor \<Rightarrow> 's
     \<Rightarrow> (error option \<times> 's \<times> 'k list) option" where
  "BFS zeroT d start visit cb = BFSByHash zeroT d (hash d start) visit cb"

text \<open>
  A Go closure can also call the methods of the graph it is traversing. The traversals
  above are those under a callback that does not. In the following ones the callback
  takes the graph and returns it, possibly changed, and the loop body reads the forward
  index from the returned graph: \<^verbatim>\<open>range d.outEdges[currentHash]\<close> comes after the call
  of \<^verbatim>\<open>visit\<close>. They return the graph after the call as well.
\<close>

type_synonym ('k, 't, 's) live_visitor =
  "'t \<Rightarrow> 's \<Rightarrow> ('k, 't) directed \<Rightarrow> bool \<times> 's \<times> ('k, 't) directed"

definition dfs_body_live ::
  "'t \<Rightarrow> ('k, 't, 's) live_visitor \<Rightarrow> ('k, 't) directed \<times> ('k, 's) dfs_state
     \<Rightarrow> ('k, 't) directed \<times> ('k, 's) dfs_state" where
  "dfs_body_live zeroT visit = (\<lambda>(d, st).
     let currentHash = last (dfs_stack st);
         currentVertex = vertexAt zeroT d currentHash;
         st1 = st\<lparr>dfs_stack := butlast (dfs_stack st)\<rparr>
     in if currentHash \<notin> dfs_visited st1 then
          (case visit currentVertex (dfs_cb st1) d of
             (stop, cb, d1) \<Rightarrow>
               let st2 = st1\<lparr>dfs_cb := cb, dfs_calls := dfs_calls st1 @ [currentHash]\<rparr>
               in if stop then (d1, st2\<lparr>dfs_stopped := True\<rparr>)
                  else (d1, st2\<lparr>dfs_visited := insert currentHash (dfs_visited st2),
                                dfs_stack := dfs_stack st2 @ adjacencies d1 currentHash,
                                dfs_pushes := dfs_pushes st2 + length (adjacencies d1 currentHash)\<rparr>))
        else (d, st1))"

definition dfs_loop_live ::
  "'t \<Rightarrow> ('k, 't, 's) live_visitor \<Rightarrow> ('k, 't) directed \<times> ('k, 's) dfs_state
     \<Rightarrow> (('k, 't) directed \<times> ('k, 's) dfs_state) option" where
  "dfs_loop_live zeroT visit ds =
     while_option (\<lambda>(d, st). dfs_cond st) (dfs_body_live zeroT visit) ds"

definition DFSByHash_live ::
  "'t \<Rightarrow> ('k, 't) directed \<Rightarrow> 'k \<Rightarrow> ('k, 't, 's) live_visitor \<Rightarrow> 's
     \<Rightarrow> (error option \<times> 's \<times> 'k list \<times> ('k, 't) directed) option" where
  "DFSByHash_live zeroT d startHash visit cb =
     (case map_of (vertices d) startHash of
        None \<Rightarrow> Some (Some StartVertexNotFound, cb, [], d)
      | Some _ \<Rightarrow>
          map_option (\<lambda>(d1, st). (None, dfs_cb st, dfs_calls st, d1))
            (dfs_loop_live zeroT visit (d, dfs_init startHash cb)))"

definition bfs_body_live ::
  "'t \<Rightarrow> ('k, 't, 's) live_visitor \<Rightarrow> ('k, 't) directed \<times> ('k, 's) bfs_state
     \<Rightarrow> ('k, 't) directed \<times> ('k, 's) bfs_state" where
  "bfs_body_live zeroT visit = (\<lambda>(d, st).
     let currentHash = hd (bfs_queue st);
         currentVertex = vertexAt zeroT d currentHash;
         st1 = st\<lparr>bfs_queue := tl (bfs_queue st)\<rparr>
     in case visit currentVertex (bfs_cb st1) d of
          (stop, cb, d1) \<Rightarrow>
            let st2 = st1\<lparr>bfs_cb := cb, bfs_calls := bfs_calls st1 @ [currentHash]\<rparr>
            in if stop then (d1, st2\<lparr>bfs_stopped := True\<rparr>)
               else (d1, fold bfs_enqueue (adjacencies d1 currentHash) st2))"

definition bfs_loop_live ::
  "'t \<Rightarrow> ('k, 't, 's) live_visitor \<Rightarrow> ('k, 't) directed \<times> ('k, 's) bfs_state
     \<Rightarrow> (('k, 't) directed \<times> ('k, 's) bfs_state) option" where
  "bfs_loop_live zeroT visit ds =
     while_option (\<lambda>(d, st). bfs_cond st) (bfs_body_live zeroT visit) ds"

definition BFSByHash_live ::
  "'t \<Rightarrow> ('k, 't) directed \<Rightarrow> 'k \<Rightarrow> ('k, 't, 's) live_visitor \<Rightarrow> 's
     \<Rightarrow> (error option \<times> 's \<times> 'k list \<times> ('k, 't) directed) option" where
  "BFSByHash_live zeroT d startHash visit cb =
     (case map_of (vertices d) startHash of
        None \<Rightarrow> Some (Some StartVertexNotFound, cb, [], d)
      | Some _ \<Rightarrow>
          map_option (\<lambda>(d1, st). (None, bfs_cb st, bfs_calls st, d1))
            (bfs_loop_live zeroT visit (d, bfs_init startHash cb)))"

section \<open>Notions used by the properties\<close>

text \<open>
  The relations the indices and the edge map stand for: \<open>pred_rel\<close> leads from a vertex
  to the keys of its reverse-index entry, \<open>out_rel\<close> to the keys of its forward-index
  entry, and \<open>edge_rel\<close> holds the ordered pairs that \<open>GetEdgeByHashes\<close> finds.
\<close>

definition pred_rel :: "('k, 't) directed \<Rightarrow> ('k \<times> 'k) set" where
  "pred_rel d = {(a, b). b \<in> set (predecessors d a)}"

definition out_rel :: "('k, 't) directed \<Rightarrow> ('k \<times> 'k) set" where
  "out_rel d = {(a, b). b \<in> set (adjacencies d a)}"

definition edge_rel :: "('k, 't) directed \<Rightarrow> ('k \<times> 'k) set" where
  "edge_rel d = {(a, b). GetEdgeByHashes d a b \<noteq> None}"

text \<open>All keys of the inner maps of a two-level map, and the number of its entries.\<close>

definition nested_keys :: "('k, ('k, 'v) gomap) gomap \<Rightarrow> 'k set" where
  "nested_keys m = (\<Union>p \<in> set m. fst ` set (snd p))"

definition entryTotal :: "('k, ('k, 'v) gomap) gomap \<Rightarrow> nat" where
  "entryTotal m = sum_list (map (\<lambda>p. length (snd p)) m)"

text \<open>The number of entries a two-level map holds under one outer key.\<close>

definition entryCount :: "('k, ('k, 'v) gomap) gomap \<Rightarrow> 'k \<Rightarrow> int" where
  "entryCount m h = (case map_of m h of None \<Rightarrow> 0 | Some inner \<Rightarrow> int (length inner))"

text \<open>The entry of a two-level map under an outer and an inner key.\<close>

definition lookup2 :: "('k, ('k, 'v) gomap) gomap \<Rightarrow> 'k \<Rightarrow> 'k \<Rightarrow> 'v option" where
  "lookup2 m a b = (case map_of m a of None \<Rightarrow> None | Some inner \<Rightarrow> map_of inner b)"

text \<open>The invariant of the loop of the cycle check started at \<open>s\<close> and looking for \<open>t\<close>.\<close>

definition cc_inv :: "('k, 't) directed \<Rightarrow> 'k \<Rightarrow> 'k \<Rightarrow> 'k cc_state \<Rightarrow> bool" where
  "cc_inv d s t st \<longleftrightarrow>
     set (cc_stack st) \<union> cc_visited st \<subseteq> (pred_rel d)\<^sup>* `` {s} \<and>
     t \<notin> cc_visited st \<and>
     (if cc_found st then (s, t) \<in> (pred_rel d)\<^sup>*
      else s \<in> cc_visited st \<union> set (cc_stack st) \<and>
           pred_rel d `` cc_visited st \<subseteq> cc_visited st \<union> set (cc_stack st))"

text \<open>
  The order in which every round of that loop descends: fewer unvisited vertices of the
  finite set \<open>U\<close>, or as many and a shorter stack.
\<close>

definition cc_measure :: "'k set \<Rightarrow> ('k cc_state \<times> 'k cc_state) set" where
  "cc_measure U = inv_image (less_than <*lex*> less_than)
       (\<lambda>st. (card (U - cc_visited st), length (cc_stack st)))"

text \<open>
  The invariant of the loop of \<^verbatim>\<open>DFSByHash\<close> started at \<open>h\<close> with the callback state
  \<open>cb0\<close>, and the order in which its rounds descend (as for the cycle check).
\<close>

definition dfs_inv ::
  "'t \<Rightarrow> ('k, 't) directed \<Rightarrow> ('t, 's) visitor \<Rightarrow> 'k \<Rightarrow> 's \<Rightarrow> ('k, 's) dfs_state \<Rightarrow> bool" where
  "dfs_inv zeroT d visit h cb0 st \<longleftrightarrow>
     set (dfs_stack st) \<union> set (dfs_calls st) \<subseteq> (out_rel d)\<^sup>* `` {h} \<and>
     distinct (dfs_calls st) \<and>
     dfs_visited st \<subseteq> set (dfs_calls st) \<and>
     dfs_cb st = foldl (\<lambda>s k. snd (visit (vertexAt zeroT d k) s)) cb0 (dfs_calls st) \<and>
     dfs_pushes st = 1 + (\<Sum>v\<in>dfs_visited st. length (adjacencies d v)) \<and>
     (\<not> dfs_stopped st \<longrightarrow>
        dfs_visited st = set (dfs_calls st) \<and>
        h \<in> dfs_visited st \<union> set (dfs_stack st) \<and>
        out_rel d `` dfs_visited st \<subseteq> dfs_visited st \<union> set (dfs_stack st))"

definition dfs_measure :: "'k set \<Rightarrow> (('k, 's) dfs_state \<times> ('k, 's) dfs_state) set" where
  "dfs_measure U = inv_image (less_than <*lex*> less_than)
       (\<lambda>st. (card (U - dfs_visited st), length (dfs_stack st)))"

text \<open>
  The invariant of the loop of \<^verbatim>\<open>BFSByHash\<close>, and the number that every round of it
  decreases: the length of the queue plus the number of unvisited vertices of \<open>U\<close>.
\<close>

definition bfs_inv ::
  "'t \<Rightarrow> ('k, 't) directed \<Rightarrow> ('t, 's) visitor \<Rightarrow> 'k \<Rightarrow> 's \<Rightarrow> ('k, 's) bfs_state \<Rightarrow> bool" where
  "bfs_inv zeroT d visit h cb0 st \<longleftrightarrow>
     bfs_visited st \<subseteq> (out_rel d)\<^sup>* `` {h} \<and>
     distinct (bfs_calls st @ bfs_queue st) \<and>
     bfs_visited st = set (bfs_calls st) \<union> set (bfs_queue st) \<and>
     bfs_cb st = foldl (\<lambda>s k. snd (visit (vertexAt zeroT d k) s)) cb0 (bfs_calls st) \<and>
     bfs_enqueues st = card (bfs_visited st) \<and>
     h \<in> bfs_visited st \<and>
     (\<not> bfs_stopped st \<longrightarrow> out_rel d `` set (bfs_calls st) \<subseteq> bfs_visited st)"

definition bfs_measure :: "'k set \<Rightarrow> ('k, 's) bfs_state \<Rightarrow> nat" where
  "bfs_measure U st = length (bfs_queue st) + card (U - bfs_visited st)"

text \<open>
  What the engine keeps true of its three edge maps: the forward index and the edge map
  hold the same entries, the reverse index holds them with the keys swapped, both ends of
  every edge are vertices, and under acyclic enforcement the edges form no cycle.
\<close>

definition consistent :: "('k, 't) directed \<Rightarrow> bool" where
  "consistent d \<longleftrightarrow>
     (\<forall>a b. lookup2 (outEdges d) a b = lookup2 (edges d) a b) \<and>
     (\<forall>a b. lookup2 (inEdges d) b a = lookup2 (edges d) a b) \<and>
     (\<forall>a b. lookup2 (edges d) a b \<noteq> None \<longrightarrow>
            map_of (vertices d) a \<noteq> None \<and> map_of (vertices d) b \<noteq> None) \<and>
     (isAcyclic d \<longrightarrow> acyclic (edge_rel d))"

text \<open>
  A callback that returns every graph as it got it; and, for such a callback and a graph
  \<open>d\<close>, the callback without a graph argument that it is on \<open>d\<close>.
\<close>

definition leaves_graph :: "('k, 't, 's) live_visitor \<Rightarrow> bool" where
  "leaves_graph visit \<longleftrightarrow> (\<forall>v s d. snd (snd (visit v s d)) = d)"

definition at_graph :: "('k, 't, 's) live_visitor \<Rightarrow> ('k, 't) directed \<Rightarrow> ('t, 's) visitor" where
  "at_graph visit d = (\<lambda>v s. (fst (visit v s d), fst (snd (visit v s d))))"

section \<open>Example graphs\<close>

text \<open>
  The scenario of the specification: vertices A, B and C, acyclic enforcement on, and the
  edges A \<open>\<rightarrow>\<close> B and B \<open>\<rightarrow>\<close> C.
\<close>

definition abc_calls :: "(string, string) call list" where
  "abc_calls = [AddVertex ''A'', AddVertex ''B'', AddVertex ''C'',
                AddEdge ''A'' ''B'' 0, AddEdge ''B'' ''C'' 0]"

definition abc :: "(string, string) directed" where
  "abc = \<lparr>hash = id, isAcyclic = True,
          vertices = [(''A'', ''A''), (''B'', ''B''), (''C'', ''C'')],
          edges = [(''A'', [(''B'', \<lparr>Source = ''A'', Target = ''B'', Weight = 0\<rparr>)]),
                   (''B'', [(''C'', \<lparr>Source = ''B'', Target = ''C'', Weight = 0\<rparr>)])],
          outEdges = [(''A'', [(''B'', \<lparr>Source = ''A'', Target = ''B'', Weight = 0\<rparr>)]),
                      (''B'', [(''C'', \<lparr>Source = ''B'', Target = ''C'', Weight = 0\<rparr>)])],
          inEdges = [(''B'', [(''A'', \<lparr>Source = ''A'', Target = ''B'', Weight = 0\<rparr>)]),
                     (''C'', [(''B'', \<lparr>Source = ''B'', Target = ''C'', Weight = 0\<rparr>)])]\<rparr>"

text \<open>Vertices that carry a name besides their identifier; the identifier is the hash.\<close>

definition named :: "(nat, nat \<times> string) directed" where
  "named = Vertex (newDirected fst False) (1, ''old'')"

text \<open>
  The strings \<^verbatim>\<open>v\<close>, \<^verbatim>\<open>+v\<close>, \<^verbatim>\<open>++v\<close> and so on; a callback that, shown the vertex \<open>v\<close>,
  adds the vertex \<^verbatim>\<open>+\<close>\<open>v\<close> and the edge from \<open>v\<close> to it through \<^verbatim>\<open>Vertex\<close> and
  \<^verbatim>\<open>WeightedEdgeByHashes\<close> and never asks to stop; a graph with the single vertex \<^verbatim>\<open>v\<close>;
  and the graphs in which the \<open>n\<close>-th of these strings is a vertex and neither it nor a
  later one has an outgoing edge.
\<close>

definition pluses :: "nat \<Rightarrow> string" where
  "pluses n = replicate n CHR ''+'' @ ''v''"

definition grow :: "(string, string, unit) live_visitor" where
  "grow v s d =
     (case WeightedEdgeByHashes (Vertex d (CHR ''+'' # v)) v (CHR ''+'' # v) 0 of
        None \<Rightarrow> (False, s, d)
      | Some (_, d1) \<Rightarrow> (False, s, d1))"

definition sprout :: "(string, string) directed" where
  "sprout = Vertex (newDirected id False) ''v''"

definition chain_end :: "(string, string) directed \<Rightarrow> nat \<Rightarrow> bool" where
  "chain_end d n \<longleftrightarrow>
     map_of (vertices d) (pluses n) = Some (pluses n) \<and> \<not> isAcyclic d \<and> hash d = id \<and>
     (\<forall>m\<ge>n. map_of (outEdges d) (pluses m) = None \<and> map_of (edges d) (pluses m) = None)"

section \<open>Evaluation\<close>

lemmas engine_defs =
  newDirected_def Vertex_def GetEdgeByHashes_def store2_def addEdge_def predecessors_def
  adjacencies_def cc_cond_def cc_body_def cc_loop_def CreatesCycleByHashes_def
  WeightedEdgeByHashes_def DegreeByHash_def vertexAt_def dfs_cond_def dfs_body_def
  dfs_init_def dfs_loop_def DFSByHash_def bfs_cond_def bfs_enqueue_def bfs_body_def
  bfs_init_def bfs_loop_def BFSByHash_def while_option_unfold Let_def

lemmas live_defs = dfs_body_live_def dfs_loop_live_def DFSByHash_live_def
  bfs_body_live_def bfs_loop_live_def BFSByHash_live_def

lemma run_abc: "run (newDirected id True) abc_calls = Some abc"
  by (simp add: abc_calls_def abc_def engine_defs)

section \<open>The cycle check\<close>

lemma finite_nested_keys: "finite (nested_keys m)"
  by (simp add: nested_keys_def)

lemma nested_keys_lookup:
  assumes "map_of m a = Some inner"
  shows "fst ` set inner \<subseteq> nested_keys m"
proof -
  from assms have "(a, inner) \<in> set m" by (rule map_of_SomeD)
  then show ?thesis unfolding nested_keys_def by force
qed

lemma predecessors_subset: "set (predecessors d a) \<subseteq> nested_keys (inEdges d)"
proof (cases "map_of (inEdges d) a")
  case None
  then show ?thesis by (simp add: predecessors_def)
next
  case (Some inE)
  then show ?thesis using nested_keys_lookup[OF Some] by (simp add: predecessors_def)
qed

lemma adjacencies_subset: "set (adjacencies d a) \<subseteq> nested_keys (outEdges d)"
proof (cases "map_of (outEdges d) a")
  case None
  then show ?thesis by (simp add: adjacencies_def)
next
  case (Some outE)
  then show ?thesis using nested_keys_lookup[OF Some] by (simp add: adjacencies_def)
qed

lemma cc_inv_init: "cc_inv d s t \<lparr>cc_stack = [s], cc_visited = {}, cc_found = False\<rparr>"
  by (simp add: cc_inv_def)

lemma cc_inv_step:
  assumes "cc_inv d s t st" "cc_cond st"
  shows "cc_inv d s t (cc_body d t st)"
proof -
  from assms(2) obtain ys c where st: "cc_stack st = ys @ [c]" and nf: "\<not> cc_found st"
    unfolding cc_cond_def by (metis append_butlast_last_id)
  have reach: "c \<in> (pred_rel d)\<^sup>* `` {s}"
    using assms(1) st unfolding cc_inv_def by auto
  have succ: "set (predecessors d c) \<subseteq> (pred_rel d)\<^sup>* `` {s}"
    using reach by (auto simp: pred_rel_def intro: rtrancl_into_rtrancl)
  show ?thesis
    using assms(1) nf reach succ unfolding cc_inv_def cc_body_def Let_def st
    by (auto simp: pred_rel_def)
qed

lemma cc_inv_exit:
  assumes "cc_inv d s t st" "\<not> cc_cond st"
  shows "cc_found st \<longleftrightarrow> (s, t) \<in> (pred_rel d)\<^sup>*"
proof (cases "cc_found st")
  case True
  then show ?thesis using assms(1) by (simp add: cc_inv_def)
next
  case False
  then have e: "cc_stack st = []" using assms(2) by (simp add: cc_cond_def)
  have "pred_rel d `` cc_visited st \<subseteq> cc_visited st" "s \<in> cc_visited st"
    using assms(1) False e by (auto simp: cc_inv_def)
  then have "(pred_rel d)\<^sup>* `` {s} \<subseteq> cc_visited st"
    by (metis Image_closed_trancl Image_mono empty_subsetI insert_subset subset_refl)
  then show ?thesis using assms(1) False by (auto simp: cc_inv_def)
qed

lemma cc_terminates:
  "\<exists>st'. cc_loop d t \<lparr>cc_stack = [s], cc_visited = {}, cc_found = False\<rparr> = Some st'"
  unfolding cc_loop_def
proof (rule wf_rel_while_option_Some
    [where P = "\<lambda>st. set (cc_stack st) \<subseteq> insert s (nested_keys (inEdges d))"
       and R = "cc_measure (insert s (nested_keys (inEdges d)))"])
  show "wf (cc_measure (insert s (nested_keys (inEdges d))))"
    unfolding cc_measure_def by (intro wf_inv_image wf_lex_prod wf_less_than)
next
  fix st :: "'a cc_state"
  let ?U = "insert s (nested_keys (inEdges d))"
  assume a: "set (cc_stack st) \<subseteq> ?U \<and> cc_cond st"
  then obtain ys c where st: "cc_stack st = ys @ [c]"
    unfolding cc_cond_def by (metis append_butlast_last_id)
  have fin: "finite ?U" by (simp add: finite_nested_keys)
  have cU: "c \<in> ?U" using a st by auto
  have "c \<notin> cc_visited st \<Longrightarrow> card (?U - insert c (cc_visited st)) < card (?U - cc_visited st)"
    using fin cU by (intro psubset_card_mono) auto
  then show "(cc_body d t st, st) \<in> cc_measure ?U"
    using st unfolding cc_measure_def cc_body_def Let_def by auto
  show "set (cc_stack (cc_body d t st)) \<subseteq> ?U"
    using a predecessors_subset[of d c] unfolding cc_body_def Let_def st by auto
qed simp

lemma CreatesCycleByHashes_reach:
  assumes "map_of (vertices d) s \<noteq> None" "map_of (vertices d) t \<noteq> None"
  shows "CreatesCycleByHashes d s t = Some (Inr (s = t \<or> (s, t) \<in> (pred_rel d)\<^sup>*), d)"
proof (cases "s = t")
  case True
  then show ?thesis using assms by (auto simp: CreatesCycleByHashes_def)
next
  case False
  obtain st' where l: "cc_loop d t \<lparr>cc_stack = [s], cc_visited = {}, cc_found = False\<rparr> = Some st'"
    using cc_terminates[of d t s] by auto
  have "cc_inv d s t st'"
    using l cc_inv_init cc_inv_step unfolding cc_loop_def
    by (rule_tac while_option_rule[where P = "cc_inv d s t"])
  moreover have "\<not> cc_cond st'"
    using l unfolding cc_loop_def by (rule while_option_stop)
  ultimately have "cc_found st' \<longleftrightarrow> (s, t) \<in> (pred_rel d)\<^sup>*"
    by (rule cc_inv_exit)
  then show ?thesis using assms False l by (auto simp: CreatesCycleByHashes_def)
qed

lemma CreatesCycleByHashes_graph:
  "CreatesCycleByHashes d s t = Some (r, d1) \<Longrightarrow> d1 = d"
  by (auto simp: CreatesCycleByHashes_def split: option.splits if_splits)

lemma CreatesCycleByHashes_total: "\<exists>r. CreatesCycleByHashes d s t = Some (r, d)"
proof (cases "map_of (vertices d) s \<noteq> None \<and> map_of (vertices d) t \<noteq> None")
  case True
  then show ?thesis using CreatesCycleByHashes_reach[of d s t] by blast
next
  case False
  then show ?thesis by (auto simp: CreatesCycleByHashes_def split: option.splits)
qed

section \<open>Reading and writing the edge maps\<close>

lemma map_of_store2:
  "map_of (store2 m a b e) x =
     (if x = a then Some (AList.update b e (case map_of m a of None \<Rightarrow> [] | Some i \<Rightarrow> i))
      else map_of m x)"
  by (auto simp: store2_def Let_def update_conv' split: option.splits)

lemma lookup2_store2:
  "lookup2 (store2 m a b e) x y = (if x = a \<and> y = b then Some e else lookup2 m x y)"
  by (auto simp: lookup2_def map_of_store2 update_conv' split: option.splits)

lemma mem_predecessors: "b \<in> set (predecessors d a) \<longleftrightarrow> lookup2 (inEdges d) a b \<noteq> None"
proof (cases "map_of (inEdges d) a")
  case None
  then show ?thesis by (simp add: predecessors_def lookup2_def)
next
  case (Some inE)
  then show ?thesis by (simp add: predecessors_def lookup2_def map_of_eq_None_iff)
qed

lemma mem_adjacencies: "b \<in> set (adjacencies d a) \<longleftrightarrow> lookup2 (outEdges d) a b \<noteq> None"
proof (cases "map_of (outEdges d) a")
  case None
  then show ?thesis by (simp add: adjacencies_def lookup2_def)
next
  case (Some outE)
  then show ?thesis by (simp add: adjacencies_def lookup2_def map_of_eq_None_iff)
qed

lemma GetEdgeByHashes_lookup2: "GetEdgeByHashes d a b = lookup2 (edges d) a b"
  by (auto simp: GetEdgeByHashes_def lookup2_def split: option.splits)

lemma GetEdgeByHashes_addEdge:
  "GetEdgeByHashes (addEdge d a b e) x y =
     (if x = a \<and> y = b then Some e else GetEdgeByHashes d x y)"
  by (simp add: GetEdgeByHashes_lookup2 addEdge_def lookup2_store2)

lemma GetEdgeByHashes_Vertex: "GetEdgeByHashes (Vertex d v) x y = GetEdgeByHashes d x y"
  by (simp add: GetEdgeByHashes_def Vertex_def)

lemma WeightedEdgeByHashes_eq:
  "WeightedEdgeByHashes d s t w =
     (if map_of (vertices d) s = None then Some (Some SourceVertexNotFound, d)
      else if map_of (vertices d) t = None then Some (Some TargetVertexNotFound, d)
      else if GetEdgeByHashes d s t \<noteq> None then Some (Some EdgeAlreadyExists, d)
      else if isAcyclic d \<and> CreatesCycleByHashes d s t = Some (Inr True, d)
           then Some (Some EdgeCreatesCycle, d)
      else Some (None, addEdge d s t
                   \<lparr>Source = the (map_of (vertices d) s), Target = the (map_of (vertices d) t),
                    Weight = w\<rparr>))"
proof -
  have "map_of (vertices d) s \<noteq> None \<Longrightarrow> map_of (vertices d) t \<noteq> None \<Longrightarrow>
        \<exists>b. CreatesCycleByHashes d s t = Some (Inr b, d)"
    using CreatesCycleByHashes_reach[of d s t] by blast
  then show ?thesis
    by (cases "map_of (vertices d) s"; cases "map_of (vertices d) t";
        cases "isAcyclic d"; cases "GetEdgeByHashes d s t")
       (auto simp: WeightedEdgeByHashes_def Let_def)
qed

lemma WeightedEdgeByHashes_total: "\<exists>r d1. WeightedEdgeByHashes d s t w = Some (r, d1)"
  by (simp add: WeightedEdgeByHashes_eq)

lemma WeightedEdgeByHashes_GetEdge:
  assumes "WeightedEdgeByHashes d a b w = Some (r, d1)"
  shows "GetEdgeByHashes d1 x y =
           (if r = None \<and> x = a \<and> y = b
            then Some \<lparr>Source = the (map_of (vertices d) a),
                       Target = the (map_of (vertices d) b), Weight = w\<rparr>
            else GetEdgeByHashes d x y)"
  using assms unfolding WeightedEdgeByHashes_eq
  by (auto simp: GetEdgeByHashes_addEdge split: if_splits)

lemma run_keeps_edge:
  "GetEdgeByHashes d s t = Some e \<Longrightarrow> run d cs = Some d2 \<Longrightarrow> GetEdgeByHashes d2 s t = Some e"
proof (induction cs arbitrary: d)
  case Nil
  then show ?case by simp
next
  case (Cons c cs)
  show ?case
  proof (cases c)
    case (AddVertex v)
    then show ?thesis
      using Cons.IH[of "Vertex d v"] Cons.prems by (simp add: GetEdgeByHashes_Vertex)
  next
    case (AddEdge a b w)
    then obtain r d1 where st: "WeightedEdgeByHashes d a b w = Some (r, d1)" "run d1 cs = Some d2"
      using Cons.prems(2) by (auto split: option.splits)
    have "GetEdgeByHashes d1 s t = Some e"
      using st(1) Cons.prems(1) unfolding WeightedEdgeByHashes_eq
      by (auto simp: GetEdgeByHashes_addEdge split: if_splits)
    then show ?thesis using Cons.IH st(2) by blast
  qed
qed

lemma run_not_added:
  "GetEdgeByHashes d t s = None \<Longrightarrow> (t, s) \<notin> set (added d cs) \<Longrightarrow> run d cs = Some d2
     \<Longrightarrow> GetEdgeByHashes d2 t s = None"
proof (induction cs arbitrary: d)
  case Nil
  then show ?case by simp
next
  case (Cons c cs)
  show ?case
  proof (cases c)
    case (AddVertex v)
    then show ?thesis
      using Cons.IH[of "Vertex d v"] Cons.prems by (simp add: GetEdgeByHashes_Vertex)
  next
    case (AddEdge a b w)
    then obtain r d1 where st: "WeightedEdgeByHashes d a b w = Some (r, d1)" "run d1 cs = Some d2"
      using Cons.prems(3) by (auto split: option.splits)
    have na: "(t, s) \<notin> set (added d1 cs)" and ne: "\<not> (r = None \<and> t = a \<and> s = b)"
      using Cons.prems(2) AddEdge st(1) by (auto split: option.splits)
    have "GetEdgeByHashes d1 t s = None"
      using WeightedEdgeByHashes_GetEdge[OF st(1), of t s] ne Cons.prems(1) by auto
    then show ?thesis using Cons.IH[of d1] na st(2) by auto
  qed
qed

lemma GetEdgeByHashes_newDirected: "GetEdgeByHashes (newDirected h a) x y = None"
  by (simp add: GetEdgeByHashes_def newDirected_def)

section \<open>What the engine keeps true\<close>

lemma edge_rel_lookup: "(a, b) \<in> edge_rel d \<longleftrightarrow> lookup2 (edges d) a b \<noteq> None"
  by (simp add: edge_rel_def GetEdgeByHashes_lookup2)

lemma pred_rel_lookup: "(a, b) \<in> pred_rel d \<longleftrightarrow> lookup2 (inEdges d) a b \<noteq> None"
  by (simp add: pred_rel_def mem_predecessors)

lemma out_rel_lookup: "(a, b) \<in> out_rel d \<longleftrightarrow> lookup2 (outEdges d) a b \<noteq> None"
  by (simp add: out_rel_def mem_adjacencies)

lemma consistent_rels:
  assumes "consistent d"
  shows "pred_rel d = (edge_rel d)\<inverse>" "out_rel d = edge_rel d"
  using assms by (auto simp: consistent_def edge_rel_lookup pred_rel_lookup out_rel_lookup)

lemma consistent_pred_reach:
  assumes "consistent d"
  shows "(s, t) \<in> (pred_rel d)\<^sup>* \<longleftrightarrow> (t, s) \<in> (edge_rel d)\<^sup>*"
  using consistent_rels(1)[OF assms] by (simp add: rtrancl_converse)

lemma consistent_newDirected: "consistent (newDirected h a)"
  by (simp add: consistent_def newDirected_def lookup2_def edge_rel_def GetEdgeByHashes_def
        acyclic_def)

lemma edge_rel_Vertex: "edge_rel (Vertex d v) = edge_rel d"
  by (simp add: edge_rel_def GetEdgeByHashes_Vertex)

lemma consistent_Vertex: "consistent d \<Longrightarrow> consistent (Vertex d v)"
  unfolding consistent_def edge_rel_Vertex by (simp add: Vertex_def update_conv')

lemma edge_rel_addEdge: "edge_rel (addEdge d s t e) = insert (s, t) (edge_rel d)"
  by (auto simp: edge_rel_def GetEdgeByHashes_addEdge)

lemma consistent_addEdge:
  assumes "consistent d" "map_of (vertices d) s \<noteq> None" "map_of (vertices d) t \<noteq> None"
    and "isAcyclic d \<longrightarrow> (t, s) \<notin> (edge_rel d)\<^sup>*"
  shows "consistent (addEdge d s t e)"
proof -
  have "isAcyclic d \<longrightarrow> acyclic (insert (s, t) (edge_rel d))"
    using assms(1,4) by (simp add: consistent_def acyclic_insert)
  then show ?thesis
    using assms(1,2,3) unfolding consistent_def edge_rel_addEdge
    by (simp add: addEdge_def lookup2_store2)
qed

lemma consistent_WeightedEdgeByHashes:
  assumes "consistent d" "WeightedEdgeByHashes d s t w = Some (r, d1)"
  shows "consistent d1 \<and> isAcyclic d1 = isAcyclic d"
proof (cases r)
  case (Some e)
  then have "d1 = d" using assms(2) unfolding WeightedEdgeByHashes_eq by (auto split: if_splits)
  then show ?thesis using assms(1) by simp
next
  case None
  let ?e = "\<lparr>Source = the (map_of (vertices d) s), Target = the (map_of (vertices d) t),
             Weight = w\<rparr>"
  have vs: "map_of (vertices d) s \<noteq> None" and vt: "map_of (vertices d) t \<noteq> None"
    and nc: "\<not> (isAcyclic d \<and> CreatesCycleByHashes d s t = Some (Inr True, d))"
    and d1: "d1 = addEdge d s t ?e"
    using assms(2) None unfolding WeightedEdgeByHashes_eq by (auto split: if_splits)
  have "isAcyclic d \<longrightarrow> (t, s) \<notin> (edge_rel d)\<^sup>*"
    using nc CreatesCycleByHashes_reach[OF vs vt] consistent_pred_reach[OF assms(1), of s t]
    by auto
  then have "consistent (addEdge d s t ?e)"
    using assms(1) vs vt by (intro consistent_addEdge)
  then show ?thesis using d1 by (simp add: addEdge_def)
qed

lemma run_consistent:
  "consistent d \<Longrightarrow> run d cs = Some d2 \<Longrightarrow> consistent d2 \<and> isAcyclic d2 = isAcyclic d"
proof (induction cs arbitrary: d)
  case Nil
  then show ?case by simp
next
  case (Cons c cs)
  show ?case
  proof (cases c)
    case (AddVertex v)
    then show ?thesis
      using Cons.IH[of "Vertex d v"] Cons.prems consistent_Vertex[of d v]
      by (simp add: Vertex_def)
  next
    case (AddEdge a b w)
    then obtain r d1 where st: "WeightedEdgeByHashes d a b w = Some (r, d1)" "run d1 cs = Some d2"
      using Cons.prems(2) by (auto split: option.splits)
    then show ?thesis
      using Cons.IH[of d1] consistent_WeightedEdgeByHashes[OF Cons.prems(1) st(1)] by simp
  qed
qed

lemma run_total: "\<exists>d2. run d cs = Some d2"
proof (induction cs arbitrary: d)
  case Nil
  then show ?case by simp
next
  case (Cons c cs)
  show ?case
  proof (cases c)
    case (AddVertex v)
    then show ?thesis using Cons.IH[of "Vertex d v"] by simp
  next
    case (AddEdge a b w)
    obtain r d1 where "WeightedEdgeByHashes d a b w = Some (r, d1)"
      using WeightedEdgeByHashes_total[of d a b w] by blast
    then show ?thesis using Cons.IH[of d1] AddEdge by simp
  qed
qed

lemma built_consistent:
  assumes "run (newDirected h a) cs = Some d"
  shows "consistent d" "isAcyclic d = a"
  using run_consistent[OF consistent_newDirected assms] by (simp_all add: newDirected_def)

lemma acyclic_add_self:
  assumes b: "run (newDirected h True) cs = Some d" and vs: "map_of (vertices d) s \<noteq> None"
  shows "WeightedEdgeByHashes d s s w = Some (Some EdgeCreatesCycle, d)"
proof -
  note c = built_consistent[OF b]
  have "acyclic (edge_rel d)" using c unfolding consistent_def by blast
  then have "(s, s) \<notin> edge_rel d"
    unfolding acyclic_def by blast
  then have "GetEdgeByHashes d s s = None" by (simp add: edge_rel_def)
  then show "WeightedEdgeByHashes d s s w = Some (Some EdgeCreatesCycle, d)"
    using vs c(2) CreatesCycleByHashes_reach[OF vs vs] by (simp add: WeightedEdgeByHashes_eq)
qed

lemma acyclic_add_reverse:
  assumes b: "run (newDirected h True) cs = Some d" and e: "GetEdgeByHashes d s t \<noteq> None"
  shows "WeightedEdgeByHashes d t s w = Some (Some EdgeCreatesCycle, d)"
proof -
  note c = built_consistent[OF b]
  have ac: "acyclic (edge_rel d)" using c unfolding consistent_def by blast
  have st: "(s, t) \<in> edge_rel d" using e by (simp add: edge_rel_def)
  then have "lookup2 (edges d) s t \<noteq> None" by (simp add: edge_rel_lookup)
  then have vs: "map_of (vertices d) s \<noteq> None" and vt: "map_of (vertices d) t \<noteq> None"
    using c(1) unfolding consistent_def by blast+
  have "(t, s) \<notin> edge_rel d"
  proof
    assume "(t, s) \<in> edge_rel d"
    then have "(s, s) \<in> (edge_rel d)\<^sup>+"
      using st by (rule_tac trancl_into_trancl[OF r_into_trancl])
    then show False using ac unfolding acyclic_def by blast
  qed
  then have ne: "GetEdgeByHashes d t s = None" by (simp add: edge_rel_def)
  have "(t, s) \<in> (pred_rel d)\<^sup>*"
    using consistent_pred_reach[OF c(1), of t s] st by auto
  then show "WeightedEdgeByHashes d t s w = Some (Some EdgeCreatesCycle, d)"
    using vs vt ne c(2) CreatesCycleByHashes_reach[OF vt vs] by (simp add: WeightedEdgeByHashes_eq)
qed

lemma acyclic_add_fresh:
  assumes b: "run (newDirected h True) cs = Some d"
    and p: "map_of (vertices d) s \<noteq> None \<and> map_of (vertices d) t \<noteq> None \<and>
       GetEdgeByHashes d s t = None \<and> (t, s) \<notin> (edge_rel d)\<^sup>*"
  shows "WeightedEdgeByHashes d s t w =
           Some (None, addEdge d s t
                   \<lparr>Source = the (map_of (vertices d) s),
                    Target = the (map_of (vertices d) t), Weight = w\<rparr>)"
proof -
  note c = built_consistent[OF b]
  have "s \<noteq> t" using p by auto
  moreover have "(s, t) \<notin> (pred_rel d)\<^sup>*"
    using consistent_pred_reach[OF c(1), of s t] p by simp
  ultimately have "CreatesCycleByHashes d s t = Some (Inr False, d)"
    using p CreatesCycleByHashes_reach[of d s t] by simp
  then show ?thesis
    using p by (simp add: WeightedEdgeByHashes_eq)
qed

section \<open>Depth-first traversal\<close>

lemma dfs_body_cases:
  assumes "dfs_stack st = ys @ [c]"
  shows "dfs_body zeroT d visit st =
     (if c \<in> dfs_visited st then st\<lparr>dfs_stack := ys\<rparr>
      else if fst (visit (vertexAt zeroT d c) (dfs_cb st))
      then st\<lparr>dfs_stack := ys, dfs_cb := snd (visit (vertexAt zeroT d c) (dfs_cb st)),
              dfs_calls := dfs_calls st @ [c], dfs_stopped := True\<rparr>
      else st\<lparr>dfs_stack := ys @ adjacencies d c,
              dfs_cb := snd (visit (vertexAt zeroT d c) (dfs_cb st)),
              dfs_calls := dfs_calls st @ [c],
              dfs_visited := insert c (dfs_visited st),
              dfs_pushes := dfs_pushes st + length (adjacencies d c)\<rparr>)"
  using assms by (simp add: dfs_body_def Let_def split: prod.splits)

lemma dfs_inv_init: "dfs_inv zeroT d visit h cb (dfs_init h cb)"
  by (simp add: dfs_inv_def dfs_init_def)

lemma dfs_inv_step:
  assumes inv: "dfs_inv zeroT d visit h cb0 st" and c: "dfs_cond st"
  shows "dfs_inv zeroT d visit h cb0 (dfs_body zeroT d visit st)"
proof -
  from c obtain ys c where st: "dfs_stack st = ys @ [c]" and ns: "\<not> dfs_stopped st"
    unfolding dfs_cond_def by (metis append_butlast_last_id)
  let ?R = "out_rel d"
  have sset: "set (dfs_stack st) = insert c (set ys)"
    using st by simp
  have i0: "set (dfs_stack st) \<subseteq> ?R\<^sup>* `` {h}"
    and i1c: "set (dfs_calls st) \<subseteq> ?R\<^sup>* `` {h}"
    and i2: "distinct (dfs_calls st)"
    and i3: "dfs_visited st = set (dfs_calls st)"
    and i4: "dfs_cb st = foldl (\<lambda>s k. snd (visit (vertexAt zeroT d k) s)) cb0 (dfs_calls st)"
    and i5: "dfs_pushes st = 1 + (\<Sum>v\<in>dfs_visited st. length (adjacencies d v))"
    and i6': "h \<in> dfs_visited st \<union> set (dfs_stack st)"
    and i7': "?R `` dfs_visited st \<subseteq> dfs_visited st \<union> set (dfs_stack st)"
    using inv ns unfolding dfs_inv_def by blast+
  have i1: "set ys \<subseteq> ?R\<^sup>* `` {h}" "c \<in> ?R\<^sup>* `` {h}" "set (dfs_calls st) \<subseteq> ?R\<^sup>* `` {h}"
    using i0 i1c sset by auto
  have i6: "h \<in> dfs_visited st \<union> insert c (set ys)"
    and i7: "?R `` dfs_visited st \<subseteq> dfs_visited st \<union> insert c (set ys)"
    using i6' i7' sset by simp_all
  have succ: "set (adjacencies d c) \<subseteq> ?R\<^sup>* `` {h}"
    using i1(2) by (auto simp: out_rel_def intro: rtrancl_into_rtrancl)
  have fin: "finite (dfs_visited st)"
    using i3 by simp
  have img: "?R `` {c} = set (adjacencies d c)"
    by (auto simp: out_rel_def)
  show ?thesis
  proof (cases "c \<in> dfs_visited st")
    case True
    have "?R `` dfs_visited st \<subseteq> dfs_visited st \<union> set ys"
      using i7 True by blast
    moreover have "h \<in> dfs_visited st \<union> set ys"
      using i6 True by blast
    ultimately show ?thesis
      using i1 i2 i3 i4 i5 True unfolding dfs_body_cases[OF st] dfs_inv_def by (simp add: subset_insertI2)
  next
    case False
    show ?thesis
    proof (cases "fst (visit (vertexAt zeroT d c) (dfs_cb st))")
      case True
      then show ?thesis
        using i1 i2 i3 i4 i5 False unfolding dfs_body_cases[OF st] dfs_inv_def by (simp add: subset_insertI2)
    next
      case nostop: False
      have "?R `` insert c (dfs_visited st)
            \<subseteq> insert c (dfs_visited st) \<union> (set ys \<union> set (adjacencies d c))"
        using i7 img by blast
      moreover have "h \<in> insert c (dfs_visited st) \<union> (set ys \<union> set (adjacencies d c))"
        using i6 by blast
      ultimately show ?thesis
        using i1 i2 i3 i4 i5 False nostop succ fin
        unfolding dfs_body_cases[OF st] dfs_inv_def by (simp add: subset_insertI2)
    qed
  qed
qed

lemma dfs_terminates: "\<exists>st'. dfs_loop zeroT d visit (dfs_init h cb) = Some st'"
  unfolding dfs_loop_def
proof (rule wf_rel_while_option_Some
    [where P = "\<lambda>st. set (dfs_stack st) \<subseteq> insert h (nested_keys (outEdges d))"
       and R = "dfs_measure (insert h (nested_keys (outEdges d)))"])
  show "wf (dfs_measure (insert h (nested_keys (outEdges d))))"
    unfolding dfs_measure_def by (intro wf_inv_image wf_lex_prod wf_less_than)
next
  let ?U = "insert h (nested_keys (outEdges d))"
  fix st :: "('a, 'b) dfs_state"
  assume a: "set (dfs_stack st) \<subseteq> ?U \<and> dfs_cond st"
  then obtain ys c where st: "dfs_stack st = ys @ [c]"
    unfolding dfs_cond_def by (metis append_butlast_last_id)
  have fin: "finite ?U" by (simp add: finite_nested_keys)
  have cU: "c \<in> ?U" using a st by auto
  have "c \<notin> dfs_visited st \<Longrightarrow> card (?U - insert c (dfs_visited st)) < card (?U - dfs_visited st)"
    using fin cU by (intro psubset_card_mono) auto
  then show "(dfs_body zeroT d visit st, st) \<in> dfs_measure ?U"
    using st unfolding dfs_measure_def dfs_body_cases[OF st] by auto
  show "set (dfs_stack (dfs_body zeroT d visit st)) \<subseteq> ?U"
    using a adjacencies_subset[of d c] st unfolding dfs_body_cases[OF st] by auto
qed (simp add: dfs_init_def)

lemma dfs_nostop_step:
  assumes "\<forall>v s. \<not> fst (visit v s)" "dfs_cond st"
  shows "\<not> dfs_stopped (dfs_body zeroT d visit st)"
proof -
  from assms(2) obtain ys c where st: "dfs_stack st = ys @ [c]" and ns: "\<not> dfs_stopped st"
    unfolding dfs_cond_def by (metis append_butlast_last_id)
  show ?thesis using assms(1) ns unfolding dfs_body_cases[OF st] by simp
qed

lemma dfs_loop_inv:
  assumes "dfs_loop zeroT d visit (dfs_init h cb) = Some st'"
  shows "dfs_inv zeroT d visit h cb st'" "\<not> dfs_cond st'"
proof -
  show "dfs_inv zeroT d visit h cb st'"
    using assms dfs_inv_init dfs_inv_step unfolding dfs_loop_def
    by (rule_tac while_option_rule[where P = "dfs_inv zeroT d visit h cb"])
  show "\<not> dfs_cond st'"
    using assms unfolding dfs_loop_def by (rule while_option_stop)
qed

lemma dfs_loop_nostop:
  assumes "dfs_loop zeroT d visit (dfs_init h cb) = Some st'" "\<forall>v s. \<not> fst (visit v s)"
  shows "\<not> dfs_stopped st'"
proof -
  have "\<not> dfs_stopped (dfs_init h cb)" by (simp add: dfs_init_def)
  then show ?thesis
    using assms(1) dfs_nostop_step[OF assms(2)] unfolding dfs_loop_def
    by (rule_tac while_option_rule[where P = "\<lambda>st. \<not> dfs_stopped st"]) auto
qed

lemma closed_reach:
  assumes "h \<in> V" "R `` V \<subseteq> V"
  shows "R\<^sup>* `` {h} \<subseteq> V"
proof -
  have "R\<^sup>* `` V = V" using assms(2) by (rule Image_closed_trancl)
  moreover have "R\<^sup>* `` {h} \<subseteq> R\<^sup>* `` V" using assms(1) by blast
  ultimately show ?thesis by simp
qed

lemma dfs_visits_reachable:
  assumes l: "dfs_loop zeroT d visit (dfs_init h cb) = Some st'"
    and nostop: "\<forall>v s. \<not> fst (visit v s)"
  shows "distinct (dfs_calls st') \<and> set (dfs_calls st') = (out_rel d)\<^sup>* `` {h} \<and>
         dfs_cb st' = foldl (\<lambda>s k. snd (visit (vertexAt zeroT d k) s)) cb (dfs_calls st')"
proof -
  note inv = dfs_loop_inv[OF l]
  have ns: "\<not> dfs_stopped st'" using dfs_loop_nostop[OF l nostop] .
  then have e: "dfs_stack st' = []" using inv(2) by (simp add: dfs_cond_def)
  have v: "dfs_visited st' = set (dfs_calls st')"
    and hv: "h \<in> dfs_visited st' \<union> set (dfs_stack st')"
    and cl: "out_rel d `` dfs_visited st' \<subseteq> dfs_visited st' \<union> set (dfs_stack st')"
    and sub: "set (dfs_calls st') \<subseteq> (out_rel d)\<^sup>* `` {h}"
    and dc: "distinct (dfs_calls st')"
    and cb: "dfs_cb st' = foldl (\<lambda>s k. snd (visit (vertexAt zeroT d k) s)) cb (dfs_calls st')"
    using inv(1) ns unfolding dfs_inv_def by blast+
  have "(out_rel d)\<^sup>* `` {h} \<subseteq> dfs_visited st'"
    using hv cl e by (intro closed_reach) simp_all
  then show ?thesis using v sub dc cb by auto
qed

lemma sum_entries_le:
  "finite S \<Longrightarrow>
     (\<Sum>v\<in>S. case map_of m v of None \<Rightarrow> 0 | Some i \<Rightarrow> length i) \<le> entryTotal m"
proof (induction m arbitrary: S)
  case Nil
  then show ?case by (simp add: entryTotal_def)
next
  case (Cons p m)
  obtain k i where p: "p = (k, i)" by (cases p)
  let ?g = "\<lambda>m v. case map_of m v of None \<Rightarrow> 0 | Some i \<Rightarrow> length i"
  have rest: "(\<Sum>v\<in>S - {k}. ?g (p # m) v) = (\<Sum>v\<in>S - {k}. ?g m v)"
    by (rule sum.cong) (auto simp: p)
  have le: "(\<Sum>v\<in>S - {k}. ?g m v) \<le> entryTotal m"
    using Cons.IH[of "S - {k}"] Cons.prems by simp
  show ?case
  proof (cases "k \<in> S")
    case True
    have "(\<Sum>v\<in>S. ?g (p # m) v) = ?g (p # m) k + (\<Sum>v\<in>S - {k}. ?g (p # m) v)"
      using Cons.prems True by (rule sum.remove)
    then show ?thesis using rest le by (simp add: p entryTotal_def)
  next
    case False
    then have "S - {k} = S" by auto
    then show ?thesis using rest le by (simp add: p entryTotal_def)
  qed
qed

lemma length_adjacencies:
  "length (adjacencies d v) = (case map_of (outEdges d) v of None \<Rightarrow> 0 | Some i \<Rightarrow> length i)"
  by (cases "map_of (outEdges d) v") (simp_all add: adjacencies_def)

lemma dfs_pushes_bound:
  assumes "dfs_loop zeroT d visit (dfs_init h cb) = Some st'"
  shows "dfs_pushes st' \<le> entryTotal (outEdges d) + 1"
proof -
  note inv = dfs_loop_inv[OF assms]
  have p: "dfs_pushes st' = 1 + (\<Sum>v\<in>dfs_visited st'. length (adjacencies d v))"
    and v: "dfs_visited st' \<subseteq> set (dfs_calls st')"
    using inv(1) unfolding dfs_inv_def by blast+
  have "finite (dfs_visited st')" using v by (rule finite_subset) simp
  then have "(\<Sum>v\<in>dfs_visited st'. length (adjacencies d v)) \<le> entryTotal (outEdges d)"
    unfolding length_adjacencies by (rule sum_entries_le)
  then show ?thesis using p by simp
qed

section \<open>Breadth-first traversal\<close>

lemma bfs_enqueue_fold:
  "\<exists>new. distinct new \<and> set new = set ns - bfs_visited st \<and>
     fold bfs_enqueue ns st =
       st\<lparr>bfs_visited := bfs_visited st \<union> set ns,
          bfs_queue := bfs_queue st @ new,
          bfs_enqueues := bfs_enqueues st + length new\<rparr>"
proof (induction ns arbitrary: st)
  case Nil
  show ?case by (rule exI[of _ "[]"]) simp
next
  case (Cons n ns)
  show ?case
  proof (cases "n \<in> bfs_visited st")
    case True
    obtain new where n: "distinct new" "set new = set ns - bfs_visited st"
      "fold bfs_enqueue ns st =
         st\<lparr>bfs_visited := bfs_visited st \<union> set ns, bfs_queue := bfs_queue st @ new,
            bfs_enqueues := bfs_enqueues st + length new\<rparr>"
      using Cons.IH[of st] by blast
    have "bfs_visited st \<union> set (n # ns) = bfs_visited st \<union> set ns"
      "set (n # ns) - bfs_visited st = set ns - bfs_visited st"
      using True by auto
    moreover have "bfs_enqueue n st = st" using True by (simp add: bfs_enqueue_def)
    ultimately show ?thesis
      using n by (intro exI[of _ new]) simp
  next
    case False
    let ?st1 = "st\<lparr>bfs_visited := insert n (bfs_visited st), bfs_queue := bfs_queue st @ [n],
                   bfs_enqueues := bfs_enqueues st + 1\<rparr>"
    obtain new where n: "distinct new" "set new = set ns - bfs_visited ?st1"
      "fold bfs_enqueue ns ?st1 =
         ?st1\<lparr>bfs_visited := bfs_visited ?st1 \<union> set ns, bfs_queue := bfs_queue ?st1 @ new,
            bfs_enqueues := bfs_enqueues ?st1 + length new\<rparr>"
      using Cons.IH[of ?st1] by blast
    have a: "distinct (n # new)" using n(1,2) by auto
    have b: "set (n # new) = set (n # ns) - bfs_visited st" using n(2) False by auto
    have c: "fold bfs_enqueue (n # ns) st =
       st\<lparr>bfs_visited := bfs_visited st \<union> set (n # ns),
          bfs_queue := bfs_queue st @ (n # new),
          bfs_enqueues := bfs_enqueues st + length (n # new)\<rparr>"
    proof -
      have "bfs_enqueue n st = ?st1" using False by (simp add: bfs_enqueue_def)
      then show ?thesis using n(3) by simp
    qed
    show ?thesis using a b c by blast
  qed
qed

lemma bfs_body_cases:
  assumes "bfs_queue st = c # q"
  shows "bfs_body zeroT d visit st =
     (if fst (visit (vertexAt zeroT d c) (bfs_cb st))
      then st\<lparr>bfs_queue := q, bfs_cb := snd (visit (vertexAt zeroT d c) (bfs_cb st)),
              bfs_calls := bfs_calls st @ [c], bfs_stopped := True\<rparr>
      else fold bfs_enqueue (adjacencies d c)
             (st\<lparr>bfs_queue := q, bfs_cb := snd (visit (vertexAt zeroT d c) (bfs_cb st)),
                 bfs_calls := bfs_calls st @ [c]\<rparr>))"
  using assms by (simp add: bfs_body_def Let_def split: prod.splits)

lemma bfs_body_nostop:
  assumes "bfs_queue st = c # q" "\<not> fst (visit (vertexAt zeroT d c) (bfs_cb st))"
  shows "\<exists>new. distinct new \<and> set new = set (adjacencies d c) - bfs_visited st \<and>
     bfs_body zeroT d visit st =
       st\<lparr>bfs_queue := q @ new, bfs_cb := snd (visit (vertexAt zeroT d c) (bfs_cb st)),
          bfs_calls := bfs_calls st @ [c],
          bfs_visited := bfs_visited st \<union> set (adjacencies d c),
          bfs_enqueues := bfs_enqueues st + length new\<rparr>"
proof -
  let ?st2 = "st\<lparr>bfs_queue := q, bfs_cb := snd (visit (vertexAt zeroT d c) (bfs_cb st)),
                 bfs_calls := bfs_calls st @ [c]\<rparr>"
  obtain new where n: "distinct new" "set new = set (adjacencies d c) - bfs_visited ?st2"
      "fold bfs_enqueue (adjacencies d c) ?st2 =
         ?st2\<lparr>bfs_visited := bfs_visited ?st2 \<union> set (adjacencies d c),
            bfs_queue := bfs_queue ?st2 @ new,
            bfs_enqueues := bfs_enqueues ?st2 + length new\<rparr>"
    using bfs_enqueue_fold[of "adjacencies d c" ?st2] by blast
  show ?thesis
    using n assms(2) unfolding bfs_body_cases[OF assms(1)]
    by (intro exI[of _ new]) simp
qed

lemma bfs_inv_init: "bfs_inv zeroT d visit h cb (bfs_init h cb)"
  by (simp add: bfs_inv_def bfs_init_def)

lemma bfs_inv_step:
  assumes inv: "bfs_inv zeroT d visit h cb0 st" and c: "bfs_cond st"
  shows "bfs_inv zeroT d visit h cb0 (bfs_body zeroT d visit st)"
proof -
  from c obtain c q where st: "bfs_queue st = c # q" and ns: "\<not> bfs_stopped st"
    unfolding bfs_cond_def by (cases "bfs_queue st") auto
  let ?R = "out_rel d"
  have i1: "bfs_visited st \<subseteq> ?R\<^sup>* `` {h}"
    and i2: "distinct (bfs_calls st @ bfs_queue st)"
    and i3: "bfs_visited st = set (bfs_calls st) \<union> set (bfs_queue st)"
    and i4: "bfs_cb st = foldl (\<lambda>s k. snd (visit (vertexAt zeroT d k) s)) cb0 (bfs_calls st)"
    and i5: "bfs_enqueues st = card (bfs_visited st)"
    and i6: "h \<in> bfs_visited st"
    and i7: "?R `` set (bfs_calls st) \<subseteq> bfs_visited st"
    using inv ns unfolding bfs_inv_def by blast+
  have cv: "c \<in> bfs_visited st" using i3 st by simp
  have fin: "finite (bfs_visited st)" using i3 by simp
  have img: "?R `` {c} = set (adjacencies d c)"
    by (auto simp: out_rel_def)
  have succ: "set (adjacencies d c) \<subseteq> ?R\<^sup>* `` {h}"
    using cv i1 by (auto simp: out_rel_def intro: rtrancl_into_rtrancl)
  have d2: "distinct ((bfs_calls st @ [c]) @ q)" using i2 st by simp
  have v2: "bfs_visited st = set (bfs_calls st @ [c]) \<union> set q" using i3 st by auto
  show ?thesis
  proof (cases "fst (visit (vertexAt zeroT d c) (bfs_cb st))")
    case True
    then show ?thesis
      using i1 d2 v2 i4 i5 i6 unfolding bfs_body_cases[OF st] bfs_inv_def by simp
  next
    case False
    obtain new where n: "distinct new" "set new = set (adjacencies d c) - bfs_visited st"
      and b: "bfs_body zeroT d visit st =
       st\<lparr>bfs_queue := q @ new, bfs_cb := snd (visit (vertexAt zeroT d c) (bfs_cb st)),
          bfs_calls := bfs_calls st @ [c],
          bfs_visited := bfs_visited st \<union> set (adjacencies d c),
          bfs_enqueues := bfs_enqueues st + length new\<rparr>"
      using bfs_body_nostop[where st=st and c=c and q=q and visit=visit and zeroT=zeroT and d=d] st False by blast
    have vn: "bfs_visited st \<union> set (adjacencies d c) = bfs_visited st \<union> set new"
      using n(2) by auto
    have dj: "bfs_visited st \<inter> set new = {}" using n(2) by auto
    have a1: "bfs_visited st \<union> set (adjacencies d c) \<subseteq> ?R\<^sup>* `` {h}"
      using i1 succ by simp
    have a2: "distinct ((bfs_calls st @ [c]) @ (q @ new))"
      using d2 n(1) dj v2 by auto
    have a3: "bfs_visited st \<union> set (adjacencies d c) = set (bfs_calls st @ [c]) \<union> set (q @ new)"
      using vn v2 by auto
    have "card (bfs_visited st \<union> set new) = card (bfs_visited st) + card (set new)"
      using fin dj by (intro card_Un_disjoint) simp_all
    then have a5: "bfs_enqueues st + length new = card (bfs_visited st \<union> set (adjacencies d c))"
      using i5 vn n(1) by (simp add: distinct_card)
    have a7: "?R `` set (bfs_calls st @ [c]) \<subseteq> bfs_visited st \<union> set (adjacencies d c)"
      using i7 img by auto
    have a6: "h \<in> bfs_visited st \<union> set (adjacencies d c)"
      using i6 by simp
    show ?thesis
      using a1 a2 a3 a5 a6 a7 i4 unfolding b bfs_inv_def by simp
  qed
qed

lemma card_diff_new:
  assumes "finite U" "distinct new" "set new \<subseteq> U - V"
  shows "card (U - (V \<union> set new)) + length new = card (U - V)"
proof -
  have "U - V = (U - (V \<union> set new)) \<union> set new" using assms(3) by auto
  moreover have "card ((U - (V \<union> set new)) \<union> set new) = card (U - (V \<union> set new)) + card (set new)"
    using assms(1) by (intro card_Un_disjoint) auto
  ultimately show ?thesis using assms(2) by (simp add: distinct_card)
qed

lemma bfs_terminates: "\<exists>st'. bfs_loop zeroT d visit (bfs_init h cb) = Some st'"
  unfolding bfs_loop_def
proof (rule measure_while_option_Some
    [where P = "\<lambda>st. True" and f = "bfs_measure (nested_keys (outEdges d))"])
  let ?U = "nested_keys (outEdges d)"
  fix st :: "('a, 'b) bfs_state"
  assume "True" and c: "bfs_cond st"
  from c obtain c q where st: "bfs_queue st = c # q"
    unfolding bfs_cond_def by (cases "bfs_queue st") auto
  have "bfs_measure ?U (bfs_body zeroT d visit st) < bfs_measure ?U st"
  proof (cases "fst (visit (vertexAt zeroT d c) (bfs_cb st))")
    case True
    then show ?thesis unfolding bfs_body_cases[OF st] bfs_measure_def using st by simp
  next
    case False
    obtain new where n: "distinct new" "set new = set (adjacencies d c) - bfs_visited st"
      and b: "bfs_body zeroT d visit st =
       st\<lparr>bfs_queue := q @ new, bfs_cb := snd (visit (vertexAt zeroT d c) (bfs_cb st)),
          bfs_calls := bfs_calls st @ [c],
          bfs_visited := bfs_visited st \<union> set (adjacencies d c),
          bfs_enqueues := bfs_enqueues st + length new\<rparr>"
      using bfs_body_nostop[where st=st and c=c and q=q and visit=visit and zeroT=zeroT and d=d] st False by blast
    have vn: "bfs_visited st \<union> set (adjacencies d c) = bfs_visited st \<union> set new"
      using n(2) by auto
    have "set new \<subseteq> ?U - bfs_visited st"
      using n(2) adjacencies_subset[of d c] by auto
    then have "card (?U - (bfs_visited st \<union> set new)) + length new = card (?U - bfs_visited st)"
      using n(1) by (intro card_diff_new) (simp_all add: finite_nested_keys)
    then show ?thesis unfolding b bfs_measure_def vn using st by simp
  qed
  then show "True \<and> bfs_measure ?U (bfs_body zeroT d visit st) < bfs_measure ?U st"
    by simp
qed simp

lemma bfs_nostop_step:
  assumes "\<forall>v s. \<not> fst (visit v s)" "bfs_cond st"
  shows "\<not> bfs_stopped (bfs_body zeroT d visit st)"
proof -
  from assms(2) obtain c q where st: "bfs_queue st = c # q" and ns: "\<not> bfs_stopped st"
    unfolding bfs_cond_def by (cases "bfs_queue st") auto
  obtain new where
    "bfs_body zeroT d visit st =
       st\<lparr>bfs_queue := q @ new, bfs_cb := snd (visit (vertexAt zeroT d c) (bfs_cb st)),
          bfs_calls := bfs_calls st @ [c],
          bfs_visited := bfs_visited st \<union> set (adjacencies d c),
          bfs_enqueues := bfs_enqueues st + length new\<rparr>"
    using bfs_body_nostop[where st=st and c=c and q=q and visit=visit and zeroT=zeroT and d=d] st assms(1) by blast
  then show ?thesis using ns by simp
qed

lemma bfs_loop_inv:
  assumes "bfs_loop zeroT d visit (bfs_init h cb) = Some st'"
  shows "bfs_inv zeroT d visit h cb st'" "\<not> bfs_cond st'"
proof -
  show "bfs_inv zeroT d visit h cb st'"
    using assms bfs_inv_init bfs_inv_step unfolding bfs_loop_def
    by (rule_tac while_option_rule[where P = "bfs_inv zeroT d visit h cb"])
  show "\<not> bfs_cond st'"
    using assms unfolding bfs_loop_def by (rule while_option_stop)
qed

lemma bfs_loop_nostop:
  assumes "bfs_loop zeroT d visit (bfs_init h cb) = Some st'" "\<forall>v s. \<not> fst (visit v s)"
  shows "\<not> bfs_stopped st'"
proof -
  have "\<not> bfs_stopped (bfs_init h cb)" by (simp add: bfs_init_def)
  then show ?thesis
    using assms(1) bfs_nostop_step[OF assms(2)] unfolding bfs_loop_def
    by (rule_tac while_option_rule[where P = "\<lambda>st. \<not> bfs_stopped st"]) auto
qed

lemma bfs_visits_reachable:
  assumes l: "bfs_loop zeroT d visit (bfs_init h cb) = Some st'"
    and nostop: "\<forall>v s. \<not> fst (visit v s)"
  shows "distinct (bfs_calls st') \<and> set (bfs_calls st') = (out_rel d)\<^sup>* `` {h} \<and>
         bfs_cb st' = foldl (\<lambda>s k. snd (visit (vertexAt zeroT d k) s)) cb (bfs_calls st')"
proof -
  note inv = bfs_loop_inv[OF l]
  have ns: "\<not> bfs_stopped st'" using bfs_loop_nostop[OF l nostop] .
  then have e: "bfs_queue st' = []" using inv(2) by (simp add: bfs_cond_def)
  have i1: "bfs_visited st' \<subseteq> (out_rel d)\<^sup>* `` {h}"
    and i2: "distinct (bfs_calls st' @ bfs_queue st')"
    and i3: "bfs_visited st' = set (bfs_calls st') \<union> set (bfs_queue st')"
    and i4: "bfs_cb st' = foldl (\<lambda>s k. snd (visit (vertexAt zeroT d k) s)) cb (bfs_calls st')"
    and i6: "h \<in> bfs_visited st'"
    and i7: "out_rel d `` set (bfs_calls st') \<subseteq> bfs_visited st'"
    using inv(1) ns unfolding bfs_inv_def by blast+
  have v: "bfs_visited st' = set (bfs_calls st')" using i3 e by simp
  have "(out_rel d)\<^sup>* `` {h} \<subseteq> bfs_visited st'"
    using i6 i7 v by (intro closed_reach) simp_all
  then show ?thesis using v i1 i2 i4 e by auto
qed

lemma card_nested_keys: "card (nested_keys m) \<le> entryTotal m"
proof (induction m)
  case Nil
  then show ?case by (simp add: nested_keys_def entryTotal_def)
next
  case (Cons p m)
  have "nested_keys (p # m) = fst ` set (snd p) \<union> nested_keys m"
    by (simp add: nested_keys_def)
  moreover have "card (fst ` set (snd p) \<union> nested_keys m)
                   \<le> card (fst ` set (snd p)) + card (nested_keys m)"
    by (rule card_Un_le)
  moreover have "card (fst ` set (snd p)) \<le> length (snd p)"
    by (metis card_image_le card_length le_trans List.finite_set)
  ultimately show ?case using Cons.IH by (simp add: entryTotal_def)
qed

lemma bfs_enqueues_bound:
  assumes "bfs_loop zeroT d visit (bfs_init h cb) = Some st'"
  shows "bfs_enqueues st' \<le> entryTotal (outEdges d) + 1"
proof -
  let ?U = "nested_keys (outEdges d)"
  have "bfs_visited st' \<subseteq> insert h ?U"
  proof (rule while_option_rule[where P = "\<lambda>st. bfs_visited st \<subseteq> insert h ?U",
        OF _ assms[unfolded bfs_loop_def]])
    show "bfs_visited (bfs_init h cb) \<subseteq> insert h ?U" by (simp add: bfs_init_def)
  next
    fix st :: "('a, 'b) bfs_state"
    assume a: "bfs_visited st \<subseteq> insert h ?U" and c: "bfs_cond st"
    from c obtain c q where st: "bfs_queue st = c # q"
      unfolding bfs_cond_def by (cases "bfs_queue st") auto
    show "bfs_visited (bfs_body zeroT d visit st) \<subseteq> insert h ?U"
    proof (cases "fst (visit (vertexAt zeroT d c) (bfs_cb st))")
      case True
      then show ?thesis using a unfolding bfs_body_cases[OF st] by simp
    next
      case False
      obtain new where
        "bfs_body zeroT d visit st =
         st\<lparr>bfs_queue := q @ new, bfs_cb := snd (visit (vertexAt zeroT d c) (bfs_cb st)),
            bfs_calls := bfs_calls st @ [c],
            bfs_visited := bfs_visited st \<union> set (adjacencies d c),
            bfs_enqueues := bfs_enqueues st + length new\<rparr>"
        using bfs_body_nostop[where st=st and c=c and q=q and visit=visit and zeroT=zeroT and d=d] st False by blast
      then show ?thesis using a adjacencies_subset[of d c] by auto
    qed
  qed
  then have "card (bfs_visited st') \<le> card (insert h ?U)"
    by (intro card_mono) (simp_all add: finite_nested_keys)
  also have "\<dots> \<le> card ?U + 1" by (simp add: card_insert_if finite_nested_keys)
  also have "\<dots> \<le> entryTotal (outEdges d) + 1" using card_nested_keys[of "outEdges d"] by simp
  finally show ?thesis using bfs_loop_inv(1)[OF assms] unfolding bfs_inv_def by simp
qed

lemma dfs_round:
  assumes "dfs_cond s1"
  shows "if last (dfs_stack s1) \<in> dfs_visited s1
         then dfs_body zeroT d visit s1 = s1\<lparr>dfs_stack := butlast (dfs_stack s1)\<rparr>
         else dfs_stopped (dfs_body zeroT d visit s1) \<or>
              dfs_visited (dfs_body zeroT d visit s1)
                = insert (last (dfs_stack s1)) (dfs_visited s1)"
proof -
  from assms obtain ys c where st: "dfs_stack s1 = ys @ [c]"
    unfolding dfs_cond_def by (metis append_butlast_last_id)
  show ?thesis unfolding dfs_body_cases[OF st] using st by simp
qed

lemma bfs_round:
  assumes "bfs_cond s2"
  shows "bfs_stopped (bfs_body zeroT d visit s2) \<or>
         (\<exists>new. bfs_queue (bfs_body zeroT d visit s2) = tl (bfs_queue s2) @ new \<and>
                distinct new \<and> set new \<inter> bfs_visited s2 = {} \<and>
                bfs_visited (bfs_body zeroT d visit s2) = bfs_visited s2 \<union> set new)"
proof -
  from assms obtain c q where st: "bfs_queue s2 = c # q"
    unfolding bfs_cond_def by (cases "bfs_queue s2") auto
  show ?thesis
  proof (cases "fst (visit (vertexAt zeroT d c) (bfs_cb s2))")
    case True
    then show ?thesis unfolding bfs_body_cases[OF st] by simp
  next
    case False
    obtain new where n: "distinct new" "set new = set (adjacencies d c) - bfs_visited s2"
      and b: "bfs_body zeroT d visit s2 =
       s2\<lparr>bfs_queue := q @ new, bfs_cb := snd (visit (vertexAt zeroT d c) (bfs_cb s2)),
          bfs_calls := bfs_calls s2 @ [c],
          bfs_visited := bfs_visited s2 \<union> set (adjacencies d c),
          bfs_enqueues := bfs_enqueues s2 + length new\<rparr>"
      using bfs_body_nostop[where st=s2 and c=c and q=q and visit=visit and zeroT=zeroT and d=d]
        st False by blast
    have "bfs_visited s2 \<union> set (adjacencies d c) = bfs_visited s2 \<union> set new"
      "set new \<inter> bfs_visited s2 = {}"
      using n(2) by auto
    then have "bfs_queue (bfs_body zeroT d visit s2) = tl (bfs_queue s2) @ new \<and>
                distinct new \<and> set new \<inter> bfs_visited s2 = {} \<and>
                bfs_visited (bfs_body zeroT d visit s2) = bfs_visited s2 \<union> set new"
      using n(1) st unfolding b by simp
    then show ?thesis by blast
  qed
qed

lemma DFSByHash_total: "\<exists>r. DFSByHash zeroT d h visit cb = Some r"
  using dfs_terminates[of zeroT d visit h cb]
  by (cases "map_of (vertices d) h") (auto simp: DFSByHash_def)

lemma BFSByHash_total: "\<exists>r. BFSByHash zeroT d h visit cb = Some r"
  using bfs_terminates[of zeroT d visit h cb]
  by (cases "map_of (vertices d) h") (auto simp: BFSByHash_def)

lemma dfs_loop_bounded:
  "\<exists>st. dfs_loop zeroT d visit (dfs_init h cb) = Some st \<and>
        dfs_pushes st \<le> entryTotal (outEdges d) + 1"
proof -
  obtain st where l: "dfs_loop zeroT d visit (dfs_init h cb) = Some st"
    using dfs_terminates[of zeroT d visit h cb] by blast
  show ?thesis using l dfs_pushes_bound[OF l] by (intro exI[of _ st]) simp
qed

lemma bfs_loop_bounded:
  "\<exists>st. bfs_loop zeroT d visit (bfs_init h cb) = Some st \<and>
        bfs_enqueues st \<le> entryTotal (outEdges d) + 1"
proof -
  obtain st where l: "bfs_loop zeroT d visit (bfs_init h cb) = Some st"
    using bfs_terminates[of zeroT d visit h cb] by blast
  show ?thesis using l bfs_enqueues_bound[OF l] by (intro exI[of _ st]) simp
qed

section \<open>Callbacks that change the graph\<close>

lemma dfs_body_live_fixed:
  assumes "leaves_graph visit"
  shows "dfs_body_live zeroT visit (d, st) = (d, dfs_body zeroT d (at_graph visit d) st)"
proof -
  obtain x a where v: "visit (vertexAt zeroT d (last (dfs_stack st))) (dfs_cb st) d = (x, a, d)"
    using assms unfolding leaves_graph_def by (metis prod.collapse)
  show ?thesis
    by (simp add: dfs_body_live_def dfs_body_def at_graph_def Let_def v)
qed

lemma bfs_body_live_fixed:
  assumes "leaves_graph visit"
  shows "bfs_body_live zeroT visit (d, st) = (d, bfs_body zeroT d (at_graph visit d) st)"
proof -
  obtain x a where v: "visit (vertexAt zeroT d (hd (bfs_queue st))) (bfs_cb st) d = (x, a, d)"
    using assms unfolding leaves_graph_def by (metis prod.collapse)
  show ?thesis
    by (simp add: bfs_body_live_def bfs_body_def at_graph_def Let_def v)
qed

lemma dfs_loop_live_fixed:
  assumes "leaves_graph visit"
  shows "dfs_loop_live zeroT visit (d, st) = map_option (Pair d) (dfs_loop zeroT d (at_graph visit d) st)"
  unfolding dfs_loop_live_def dfs_loop_def
  by (rule while_option_commute_invariant[where P = "\<lambda>_. True", symmetric])
     (simp_all add: dfs_body_live_fixed[OF assms])

lemma bfs_loop_live_fixed:
  assumes "leaves_graph visit"
  shows "bfs_loop_live zeroT visit (d, st) = map_option (Pair d) (bfs_loop zeroT d (at_graph visit d) st)"
  unfolding bfs_loop_live_def bfs_loop_def
  by (rule while_option_commute_invariant[where P = "\<lambda>_. True", symmetric])
     (simp_all add: bfs_body_live_fixed[OF assms])

lemma DFSByHash_live_fixed:
  assumes "leaves_graph visit"
  shows "DFSByHash_live zeroT d h visit cb =
           map_option (\<lambda>(e, cb1, calls). (e, cb1, calls, d))
             (DFSByHash zeroT d h (at_graph visit d) cb)"
  by (cases "map_of (vertices d) h")
     (simp_all add: DFSByHash_live_def DFSByHash_def dfs_loop_live_fixed[OF assms]
        option.map_comp comp_def)

lemma BFSByHash_live_fixed:
  assumes "leaves_graph visit"
  shows "BFSByHash_live zeroT d h visit cb =
           map_option (\<lambda>(e, cb1, calls). (e, cb1, calls, d))
             (BFSByHash zeroT d h (at_graph visit d) cb)"
  by (cases "map_of (vertices d) h")
     (simp_all add: BFSByHash_live_def BFSByHash_def bfs_loop_live_fixed[OF assms]
        option.map_comp comp_def)

lemma while_option_forever:
  assumes "\<And>s. P s \<Longrightarrow> b s" and "\<And>s. P s \<Longrightarrow> P (c s)" and "P s"
  shows "while_option b c s = None"
proof -
  have "P ((c ^^ k) s)" for k
    by (induction k) (simp_all add: assms)
  then have "\<forall>k. b ((c ^^ k) s)" using assms(1) by blast
  then show ?thesis by (simp add: while_option_def)
qed

lemma pluses_Suc: "CHR ''+'' # pluses n = pluses (Suc n)"
  by (simp add: pluses_def)

lemma pluses_inj: "pluses m = pluses n \<longleftrightarrow> m = n"
  by (simp add: pluses_def)

lemma grow_chain_end:
  assumes "chain_end d n"
  shows "\<exists>d1. grow (pluses n) s d = (False, s, d1) \<and> chain_end d1 (Suc n) \<and>
              adjacencies d1 (pluses n) = [pluses (Suc n)]"
proof -
  let ?a = "pluses n" and ?b = "pluses (Suc n)"
  let ?d0 = "Vertex d ?b"
  let ?e = "\<lparr>Source = ?a, Target = ?b, Weight = 0\<rparr>"
  have v: "map_of (vertices d) ?a = Some ?a" and na: "\<not> isAcyclic d" and h: "hash d = id"
    and fr: "\<And>m. n \<le> m \<Longrightarrow> map_of (outEdges d) (pluses m) = None \<and> map_of (edges d) (pluses m) = None"
    using assms unfolding chain_end_def by blast+
  have v0: "map_of (vertices ?d0) ?a = Some ?a" "map_of (vertices ?d0) ?b = Some ?b"
    using v h by (simp_all add: Vertex_def update_conv' pluses_inj)
  have g0: "GetEdgeByHashes ?d0 ?a ?b = None"
    using fr[of n] by (simp add: GetEdgeByHashes_def Vertex_def)
  have a0: "\<not> isAcyclic ?d0" using na by (simp add: Vertex_def)
  have w: "WeightedEdgeByHashes ?d0 ?a ?b 0 = Some (None, addEdge ?d0 ?a ?b ?e)"
    using v0 g0 a0 by (simp add: WeightedEdgeByHashes_eq)
  let ?d1 = "addEdge ?d0 ?a ?b ?e"
  have g: "grow ?a s d = (False, s, ?d1)" by (simp add: grow_def pluses_Suc w)
  have o: "map_of (outEdges ?d1) ?a = Some [(?b, ?e)]"
    using fr[of n] by (simp add: addEdge_def Vertex_def map_of_store2)
  have adj: "adjacencies ?d1 ?a = [?b]"
    by (simp add: adjacencies_def o)
  have "map_of (outEdges ?d1) (pluses m) = None \<and> map_of (edges ?d1) (pluses m) = None"
    if "Suc n \<le> m" for m
    using fr[of m] that by (simp add: addEdge_def Vertex_def map_of_store2 pluses_inj)
  then have "chain_end ?d1 (Suc n)"
    using v0(2) na h unfolding chain_end_def by (simp add: addEdge_def Vertex_def)
  then show ?thesis using g adj by blast
qed

lemma chain_end_sprout: "chain_end sprout 0"
  by (simp add: chain_end_def sprout_def Vertex_def newDirected_def pluses_def)

lemma DFSByHash_live_grow: "DFSByHash_live [] sprout ''v'' grow () = None"
proof -
  let ?P = "\<lambda>(d, st). \<exists>n. dfs_stack st = [pluses n] \<and> \<not> dfs_stopped st \<and>
                 (\<forall>v\<in>dfs_visited st. \<exists>m<n. v = pluses m) \<and> chain_end d n"
  have "while_option (\<lambda>(d, st). dfs_cond st) (dfs_body_live [] grow) (sprout, dfs_init ''v'' ())
          = None"
  proof (rule while_option_forever[where P = ?P])
    fix ds :: "(string, string) directed \<times> (string, unit) dfs_state"
    assume p: "?P ds"
    then show "case ds of (d, st) \<Rightarrow> dfs_cond st" by (auto simp: dfs_cond_def)
    obtain d st where ds: "ds = (d, st)" by (cases ds)
    obtain n where n: "dfs_stack st = [pluses n]" "\<not> dfs_stopped st"
      "\<forall>v\<in>dfs_visited st. \<exists>m<n. v = pluses m" "chain_end d n"
      using p ds by auto
    obtain d1 where g: "grow (pluses n) (dfs_cb st) d = (False, dfs_cb st, d1)"
      "chain_end d1 (Suc n)" "adjacencies d1 (pluses n) = [pluses (Suc n)]"
      using grow_chain_end[OF n(4)] by blast
    have nv: "pluses n \<notin> dfs_visited st" using n(3) by (auto simp: pluses_inj)
    have va: "vertexAt [] d (pluses n) = pluses n" using n(4) by (simp add: vertexAt_def chain_end_def)
    have b: "dfs_body_live [] grow (d, st) =
            (d1, st\<lparr>dfs_stack := [pluses (Suc n)], dfs_calls := dfs_calls st @ [pluses n],
                    dfs_visited := insert (pluses n) (dfs_visited st),
                    dfs_pushes := dfs_pushes st + 1\<rparr>)"
      using n(1) nv va g by (simp add: dfs_body_live_def Let_def)
    have "\<forall>v\<in>insert (pluses n) (dfs_visited st). \<exists>m<Suc n. v = pluses m"
      using n(3) less_SucI by blast
    then have "?P (dfs_body_live [] grow (d, st))"
      using n(2) g(2) unfolding b by (simp add: exI[of _ "Suc n"])
    then show "?P (dfs_body_live [] grow ds)"
      using ds by simp
  next
    show "?P (sprout, dfs_init ''v'' ())"
      using chain_end_sprout by (auto simp: dfs_init_def pluses_def intro: exI[of _ 0])
  qed
  moreover have "map_of (vertices sprout) ''v'' = Some ''v''"
    using chain_end_sprout by (simp add: chain_end_def pluses_def)
  ultimately show ?thesis by (simp add: DFSByHash_live_def dfs_loop_live_def)
qed

lemma BFSByHash_live_grow: "BFSByHash_live [] sprout ''v'' grow () = None"
proof -
  let ?P = "\<lambda>(d, st). \<exists>n. bfs_queue st = [pluses n] \<and> \<not> bfs_stopped st \<and>
                 (\<forall>v\<in>bfs_visited st. \<exists>m\<le>n. v = pluses m) \<and> chain_end d n"
  have "while_option (\<lambda>(d, st). bfs_cond st) (bfs_body_live [] grow) (sprout, bfs_init ''v'' ())
          = None"
  proof (rule while_option_forever[where P = ?P])
    fix ds :: "(string, string) directed \<times> (string, unit) bfs_state"
    assume p: "?P ds"
    then show "case ds of (d, st) \<Rightarrow> bfs_cond st" by (auto simp: bfs_cond_def)
    obtain d st where ds: "ds = (d, st)" by (cases ds)
    obtain n where n: "bfs_queue st = [pluses n]" "\<not> bfs_stopped st"
      "\<forall>v\<in>bfs_visited st. \<exists>m\<le>n. v = pluses m" "chain_end d n"
      using p ds by auto
    obtain d1 where g: "grow (pluses n) (bfs_cb st) d = (False, bfs_cb st, d1)"
      "chain_end d1 (Suc n)" "adjacencies d1 (pluses n) = [pluses (Suc n)]"
      using grow_chain_end[OF n(4)] by blast
    have nv: "pluses (Suc n) \<notin> bfs_visited st" using n(3) by (auto simp: pluses_inj)
    have va: "vertexAt [] d (pluses n) = pluses n" using n(4) by (simp add: vertexAt_def chain_end_def)
    have b: "bfs_body_live [] grow (d, st) =
            (d1, st\<lparr>bfs_queue := [pluses (Suc n)], bfs_calls := bfs_calls st @ [pluses n],
                    bfs_visited := insert (pluses (Suc n)) (bfs_visited st),
                    bfs_enqueues := bfs_enqueues st + 1\<rparr>)"
      using n(1) nv va g by (simp add: bfs_body_live_def bfs_enqueue_def Let_def)
    have "\<forall>v\<in>insert (pluses (Suc n)) (bfs_visited st). \<exists>m\<le>Suc n. v = pluses m"
      using n(3) le_SucI by blast
    then have "?P (bfs_body_live [] grow (d, st))"
      using n(2) g(2) unfolding b by (simp add: exI[of _ "Suc n"])
    then show "?P (bfs_body_live [] grow ds)"
      using ds by simp
  next
    show "?P (sprout, bfs_init ''v'' ())"
      using chain_end_sprout by (auto simp: bfs_init_def pluses_def intro: exI[of _ 0])
  qed
  moreover have "map_of (vertices sprout) ''v'' = Some ''v''"
    using chain_end_sprout by (simp add: chain_end_def pluses_def)
  ultimately show ?thesis by (simp add: BFSByHash_live_def bfs_loop_live_def)
qed

section \<open>Settled properties\<close>

text \<open>
  C1: \<^verbatim>\<open>Vertex\<close> does not reject a value whose identifier is already present. It has no
  error result, and the second call with identifier 1 below replaces the value stored
  under it, where the first value should have stayed.
\<close>

theorem Vertex_duplicate_overwrites:
  "map_of (vertices named) (hash named (1, ''new'')) = Some (1, ''old'') \<and>
   map_of (vertices (Vertex named (1, ''new''))) (hash named (1, ''new'')) = Some (1, ''new'') \<and>
   map_of (vertices (Vertex named (1, ''new''))) (hash named (1, ''new''))
     \<noteq> map_of (vertices named) (hash named (1, ''new''))"
  by (simp add: named_def engine_defs)

text \<open>
  C2: \<^verbatim>\<open>WeightedEdgeByHashes\<close> returns the error for a missing source or target when
  that identifier is not in the vertex map; else the error for an existing edge when the
  edge map has the ordered pair; else, under acyclic enforcement, the error for a cycle
  when the cycle check reports one; and in every remaining case it succeeds and the graph
  after the call is \<open>addEdge\<close> of the graph before, which holds the new edge in the edge
  map, in the forward index under (source, target) and in the reverse index under
  (target, source).
\<close>

theorem WeightedEdgeByHashes_cases:
  "WeightedEdgeByHashes d s t w =
     (if map_of (vertices d) s = None then Some (Some SourceVertexNotFound, d)
      else if map_of (vertices d) t = None then Some (Some TargetVertexNotFound, d)
      else if GetEdgeByHashes d s t \<noteq> None then Some (Some EdgeAlreadyExists, d)
      else if isAcyclic d \<and> CreatesCycleByHashes d s t = Some (Inr True, d)
           then Some (Some EdgeCreatesCycle, d)
      else Some (None, addEdge d s t
                   \<lparr>Source = the (map_of (vertices d) s), Target = the (map_of (vertices d) t),
                    Weight = w\<rparr>)) \<and>
   lookup2 (edges (addEdge d s t e)) s t = Some e \<and>
   lookup2 (outEdges (addEdge d s t e)) s t = Some e \<and>
   lookup2 (inEdges (addEdge d s t e)) t s = Some e"
  using WeightedEdgeByHashes_eq[of d s t w] by (simp add: addEdge_def lookup2_store2)

theorem WeightedEdgeByHashes_cases_witness:
  "WeightedEdgeByHashes abc ''Z'' ''A'' 4 = Some (Some SourceVertexNotFound, abc) \<and>
   WeightedEdgeByHashes abc ''A'' ''Z'' 4 = Some (Some TargetVertexNotFound, abc) \<and>
   WeightedEdgeByHashes abc ''A'' ''B'' 4 = Some (Some EdgeAlreadyExists, abc) \<and>
   WeightedEdgeByHashes abc ''C'' ''A'' 4 = Some (Some EdgeCreatesCycle, abc) \<and>
   WeightedEdgeByHashes abc ''A'' ''C'' 4 =
     Some (None, addEdge abc ''A'' ''C'' \<lparr>Source = ''A'', Target = ''C'', Weight = 4\<rparr>)"
  using WeightedEdgeByHashes_cases[of abc "''Z''" "''A''" 4]
    WeightedEdgeByHashes_cases[of abc "''A''" "''Z''" 4]
    WeightedEdgeByHashes_cases[of abc "''A''" "''B''" 4]
    WeightedEdgeByHashes_cases[of abc "''C''" "''A''" 4]
    WeightedEdgeByHashes_cases[of abc "''A''" "''C''" 4]
  by (simp add: abc_def engine_defs)

text \<open>
  C3: whenever \<^verbatim>\<open>WeightedEdgeByHashes\<close> returns an error, the graph after the call is the
  graph before it: the vertex map, the edge map and both indices are as they were.
\<close>

theorem WeightedEdgeByHashes_error_unchanged:
  "WeightedEdgeByHashes d s t w = Some (Some e, d1) \<Longrightarrow>
     d1 = d \<and> vertices d1 = vertices d \<and> edges d1 = edges d \<and>
     outEdges d1 = outEdges d \<and> inEdges d1 = inEdges d"
  by (auto simp: WeightedEdgeByHashes_def Let_def
           split: option.splits if_splits sum.splits prod.splits
           dest: CreatesCycleByHashes_graph)

theorem WeightedEdgeByHashes_error_unchanged_witness:
  "WeightedEdgeByHashes abc ''C'' ''A'' 7 = Some (Some EdgeCreatesCycle, abc) \<and>
   WeightedEdgeByHashes abc ''A'' ''B'' 7 = Some (Some EdgeAlreadyExists, abc) \<and>
   WeightedEdgeByHashes abc ''A'' ''Z'' 7 = Some (Some TargetVertexNotFound, abc)"
proof -
  obtain d1 where h1: "WeightedEdgeByHashes abc ''C'' ''A'' 7 = Some (Some EdgeCreatesCycle, d1)"
    by (simp add: abc_def engine_defs)
  obtain d2 where h2: "WeightedEdgeByHashes abc ''A'' ''B'' 7 = Some (Some EdgeAlreadyExists, d2)"
    by (simp add: abc_def engine_defs)
  obtain d3 where h3: "WeightedEdgeByHashes abc ''A'' ''Z'' 7 = Some (Some TargetVertexNotFound, d3)"
    by (simp add: abc_def engine_defs)
  show ?thesis
    using h1 h2 h3 WeightedEdgeByHashes_error_unchanged[OF h1]
      WeightedEdgeByHashes_error_unchanged[OF h2] WeightedEdgeByHashes_error_unchanged[OF h3]
    by simp
qed

text \<open>
  C4: with both endpoints in the vertex map, \<^verbatim>\<open>CreatesCycleByHashes\<close> returns true
  exactly when source and target are equal or the target is reached from the source along
  the reverse index. In a graph built from an empty one by the engine's calls that is the
  same as a directed path of edges from the target to the source, and the forward index
  holds exactly the edges. In such a graph built with acyclic enforcement on, adding a
  self-loop on a vertex fails because of the cycle, adding (t, s) when the edge (s, t)
  exists fails because of the cycle, and adding a new edge (s, t) between vertices with
  no path from t to s succeeds.
\<close>

theorem CreatesCycleByHashes_iff:
  "(map_of (vertices d) s \<noteq> None \<and> map_of (vertices d) t \<noteq> None \<longrightarrow>
      CreatesCycleByHashes d s t = Some (Inr (s = t \<or> (s, t) \<in> (pred_rel d)\<^sup>*), d)) \<and>
   (run (newDirected h a) cs = Some d \<longrightarrow>
      ((s, t) \<in> (pred_rel d)\<^sup>* \<longleftrightarrow> (t, s) \<in> (edge_rel d)\<^sup>*) \<and>
      out_rel d = edge_rel d) \<and>
   (run (newDirected h True) cs = Some d \<longrightarrow>
      (map_of (vertices d) s \<noteq> None \<longrightarrow>
         WeightedEdgeByHashes d s s w = Some (Some EdgeCreatesCycle, d)) \<and>
      (GetEdgeByHashes d s t \<noteq> None \<longrightarrow>
         WeightedEdgeByHashes d t s w = Some (Some EdgeCreatesCycle, d)) \<and>
      (map_of (vertices d) s \<noteq> None \<and> map_of (vertices d) t \<noteq> None \<and>
       GetEdgeByHashes d s t = None \<and> (t, s) \<notin> (edge_rel d)\<^sup>* \<longrightarrow>
         WeightedEdgeByHashes d s t w =
           Some (None, addEdge d s t
                   \<lparr>Source = the (map_of (vertices d) s),
                    Target = the (map_of (vertices d) t), Weight = w\<rparr>)))"
proof (intro conjI impI)
  assume "map_of (vertices d) s \<noteq> None \<and> map_of (vertices d) t \<noteq> None"
  then show "CreatesCycleByHashes d s t = Some (Inr (s = t \<or> (s, t) \<in> (pred_rel d)\<^sup>*), d)"
    by (simp add: CreatesCycleByHashes_reach)
next
  assume "run (newDirected h a) cs = Some d"
  then have "consistent d" by (rule built_consistent(1))
  then show "(s, t) \<in> (pred_rel d)\<^sup>* \<longleftrightarrow> (t, s) \<in> (edge_rel d)\<^sup>*"
    by (rule consistent_pred_reach)
next
  assume "run (newDirected h a) cs = Some d"
  then have "consistent d" by (rule built_consistent(1))
  then show "out_rel d = edge_rel d"
    by (rule consistent_rels(2))
next
  assume "run (newDirected h True) cs = Some d" "map_of (vertices d) s \<noteq> None"
  then show "WeightedEdgeByHashes d s s w = Some (Some EdgeCreatesCycle, d)"
    by (rule acyclic_add_self)
next
  assume "run (newDirected h True) cs = Some d" "GetEdgeByHashes d s t \<noteq> None"
  then show "WeightedEdgeByHashes d t s w = Some (Some EdgeCreatesCycle, d)"
    by (rule acyclic_add_reverse)
next
  assume "run (newDirected h True) cs = Some d"
    "map_of (vertices d) s \<noteq> None \<and> map_of (vertices d) t \<noteq> None \<and>
       GetEdgeByHashes d s t = None \<and> (t, s) \<notin> (edge_rel d)\<^sup>*"
  then show "WeightedEdgeByHashes d s t w =
           Some (None, addEdge d s t
                   \<lparr>Source = the (map_of (vertices d) s),
                    Target = the (map_of (vertices d) t), Weight = w\<rparr>)"
    by (rule acyclic_add_fresh)
qed

theorem CreatesCycleByHashes_iff_witness:
  "CreatesCycleByHashes abc ''A'' ''C'' = Some (Inr False, abc) \<and>
   (''C'', ''A'') \<notin> (edge_rel abc)\<^sup>* \<and>
   WeightedEdgeByHashes abc ''A'' ''C'' 3 =
     Some (None, addEdge abc ''A'' ''C'' \<lparr>Source = ''A'', Target = ''C'', Weight = 3\<rparr>) \<and>
   CreatesCycleByHashes abc ''C'' ''A'' = Some (Inr True, abc) \<and>
   (''A'', ''C'') \<in> (edge_rel abc)\<^sup>* \<and>
   WeightedEdgeByHashes abc ''A'' ''A'' 3 = Some (Some EdgeCreatesCycle, abc) \<and>
   WeightedEdgeByHashes abc ''B'' ''A'' 3 = Some (Some EdgeCreatesCycle, abc)"
proof -
  note ac = CreatesCycleByHashes_iff
    [where d = abc and s = "''A''" and t = "''C''" and h = id and a = True
       and cs = abc_calls and w = 3]
  note ca = CreatesCycleByHashes_iff
    [where d = abc and s = "''C''" and t = "''A''" and h = id and a = True
       and cs = abc_calls and w = 3]
  note ab = CreatesCycleByHashes_iff
    [where d = abc and s = "''A''" and t = "''B''" and h = id and a = True
       and cs = abc_calls and w = 3]
  have v: "map_of (vertices abc) ''A'' = Some ''A''" "map_of (vertices abc) ''C'' = Some ''C''"
    by (simp_all add: abc_def)
  have g: "GetEdgeByHashes abc ''A'' ''C'' = None" "GetEdgeByHashes abc ''A'' ''B'' \<noteq> None"
    by (simp_all add: abc_def GetEdgeByHashes_def)
  have e1: "CreatesCycleByHashes abc ''A'' ''C'' = Some (Inr False, abc)"
    by (simp add: abc_def engine_defs)
  have e2: "CreatesCycleByHashes abc ''C'' ''A'' = Some (Inr True, abc)"
    by (simp add: abc_def engine_defs)
  have n1: "(''A'', ''C'') \<notin> (pred_rel abc)\<^sup>*"
    using ac e1 v by simp
  then have n2: "(''C'', ''A'') \<notin> (edge_rel abc)\<^sup>*"
    using ac run_abc by blast
  have "''C'' = ''A'' \<or> (''C'', ''A'') \<in> (pred_rel abc)\<^sup>*"
    using ca e2 v by simp
  then have y1: "(''A'', ''C'') \<in> (edge_rel abc)\<^sup>*"
    using ca run_abc by simp
  have s1: "WeightedEdgeByHashes abc ''A'' ''C'' 3 =
     Some (None, addEdge abc ''A'' ''C'' \<lparr>Source = ''A'', Target = ''C'', Weight = 3\<rparr>)"
    using ac run_abc v g(1) n2 by simp
  have s2: "WeightedEdgeByHashes abc ''A'' ''A'' 3 = Some (Some EdgeCreatesCycle, abc)"
    using ab run_abc v by blast
  have s3: "WeightedEdgeByHashes abc ''B'' ''A'' 3 = Some (Some EdgeCreatesCycle, abc)"
    using ab run_abc g(2) by blast
  show ?thesis using e1 n2 s1 e2 y1 s2 s3 by blast
qed

text \<open>
  C5: started at an identifier in the vertex map with a callback that never asks to
  stop, \<^verbatim>\<open>DFSByHash\<close> and \<^verbatim>\<open>BFSByHash\<close> return without error, and the identifiers
  the callback was invoked on are, without repetition, exactly those reached from the
  start along the forward index. The state of the callback after the call is the one that
  these invocations, in order, produce.
\<close>

theorem traversals_visit_reachable:
  assumes "map_of (vertices d) h \<noteq> None" and "\<forall>v s. \<not> fst (visit v s)"
  shows "(\<exists>calls. DFSByHash zeroT d h visit cb =
             Some (None, foldl (\<lambda>s k. snd (visit (vertexAt zeroT d k) s)) cb calls, calls) \<and>
           distinct calls \<and> set calls = (out_rel d)\<^sup>* `` {h}) \<and>
         (\<exists>calls. BFSByHash zeroT d h visit cb =
             Some (None, foldl (\<lambda>s k. snd (visit (vertexAt zeroT d k) s)) cb calls, calls) \<and>
           distinct calls \<and> set calls = (out_rel d)\<^sup>* `` {h})"
proof
  obtain st where l: "dfs_loop zeroT d visit (dfs_init h cb) = Some st"
    using dfs_terminates[of zeroT d visit h cb] by blast
  have "DFSByHash zeroT d h visit cb = Some (None, dfs_cb st, dfs_calls st)"
    using assms(1) l by (auto simp: DFSByHash_def)
  then show "\<exists>calls. DFSByHash zeroT d h visit cb =
             Some (None, foldl (\<lambda>s k. snd (visit (vertexAt zeroT d k) s)) cb calls, calls) \<and>
           distinct calls \<and> set calls = (out_rel d)\<^sup>* `` {h}"
    using dfs_visits_reachable[OF l assms(2)] by (intro exI[of _ "dfs_calls st"]) simp
next
  obtain st where l: "bfs_loop zeroT d visit (bfs_init h cb) = Some st"
    using bfs_terminates[of zeroT d visit h cb] by blast
  have "BFSByHash zeroT d h visit cb = Some (None, bfs_cb st, bfs_calls st)"
    using assms(1) l by (auto simp: BFSByHash_def)
  then show "\<exists>calls. BFSByHash zeroT d h visit cb =
             Some (None, foldl (\<lambda>s k. snd (visit (vertexAt zeroT d k) s)) cb calls, calls) \<and>
           distinct calls \<and> set calls = (out_rel d)\<^sup>* `` {h}"
    using bfs_visits_reachable[OF l assms(2)] by (intro exI[of _ "bfs_calls st"]) simp
qed

theorem traversals_visit_reachable_witness:
  "map_of (vertices abc) ''A'' \<noteq> None \<and>
   (\<forall>v s. \<not> fst ((\<lambda>v s. (False, s @ [v])) (v :: string) (s :: string list))) \<and>
   DFSByHash [] abc ''A'' (\<lambda>v s. (False, s @ [v])) [] =
     Some (None, [''A'', ''B'', ''C''], [''A'', ''B'', ''C'']) \<and>
   BFSByHash [] abc ''A'' (\<lambda>v s. (False, s @ [v])) [] =
     Some (None, [''A'', ''B'', ''C''], [''A'', ''B'', ''C'']) \<and>
   (out_rel abc)\<^sup>* `` {''A''} = {''A'', ''B'', ''C''}"
proof -
  have h1: "map_of (vertices abc) ''A'' \<noteq> None" by (simp add: abc_def)
  have h2: "\<forall>v s. \<not> fst ((\<lambda>v s. (False, s @ [v])) (v :: string) (s :: string list))" by simp
  have d: "DFSByHash [] abc ''A'' (\<lambda>v s. (False, s @ [v])) [] =
     Some (None, [''A'', ''B'', ''C''], [''A'', ''B'', ''C''])"
    by (simp add: abc_def engine_defs)
  have b: "BFSByHash [] abc ''A'' (\<lambda>v s. (False, s @ [v])) [] =
     Some (None, [''A'', ''B'', ''C''], [''A'', ''B'', ''C''])"
    by (simp add: abc_def engine_defs)
  have "(out_rel abc)\<^sup>* `` {''A''} = set [''A'', ''B'', ''C'']"
    using traversals_visit_reachable[OF h1 h2, of "[]" "[]"] d by auto
  then show ?thesis using h1 h2 d b by simp
qed

text \<open>
  C6: started at an identifier that is not in the vertex map, \<^verbatim>\<open>DFSByHash\<close> and
  \<^verbatim>\<open>BFSByHash\<close> return the error that the start vertex could not be found; the callback is
  invoked on no identifier and its state is the one before the call.
\<close>

theorem traversal_start_missing:
  "map_of (vertices d) h = None \<Longrightarrow>
     DFSByHash zeroT d h visit cb = Some (Some StartVertexNotFound, cb, []) \<and>
     BFSByHash zeroT d h visit cb = Some (Some StartVertexNotFound, cb, [])"
  by (simp add: DFSByHash_def BFSByHash_def)

theorem traversal_start_missing_witness:
  "map_of (vertices abc) ''Z'' = None \<and>
   DFSByHash [] abc ''Z'' (\<lambda>v n. (False, Suc n)) (0::nat) = Some (Some StartVertexNotFound, 0, []) \<and>
   BFSByHash [] abc ''Z'' (\<lambda>v n. (False, Suc n)) (0::nat) = Some (Some StartVertexNotFound, 0, [])"
proof -
  have h: "map_of (vertices abc) ''Z'' = None" by (simp add: abc_def)
  show ?thesis using h traversal_start_missing[OF h] by simp
qed

text \<open>
  C7: \<^verbatim>\<open>DegreeByHash\<close> of a present identifier is the number of entries the reverse index
  holds for it plus the number the forward index holds for it (an identifier without an
  entry counts as zero); of an absent identifier it is the error that the vertex could not
  be found.
\<close>

theorem DegreeByHash_counts:
  "(map_of (vertices d) h \<noteq> None \<longrightarrow>
      DegreeByHash d h = Inr (entryCount (inEdges d) h + entryCount (outEdges d) h)) \<and>
   (map_of (vertices d) h = None \<longrightarrow> DegreeByHash d h = Inl VertexNotFound)"
  by (auto simp: DegreeByHash_def entryCount_def split: option.splits)

theorem DegreeByHash_counts_witness:
  "map_of (vertices abc) ''B'' \<noteq> None \<and> DegreeByHash abc ''B'' = Inr 2 \<and>
   map_of (vertices abc) ''Z'' = None \<and> DegreeByHash abc ''Z'' = Inl VertexNotFound"
  using DegreeByHash_counts[of abc "''B''"] DegreeByHash_counts[of abc "''Z''"]
  by (simp add: abc_def entryCount_def)

text \<open>
  C8: when the source or the target identifier is not in the vertex map,
  \<^verbatim>\<open>CreatesCycleByHashes\<close> returns an error instead of a verdict (the one for the source
  when the source is absent, else the one for the target), and the graph after the call is
  the graph before it.
\<close>

theorem CreatesCycleByHashes_missing:
  "map_of (vertices d) s = None \<or> map_of (vertices d) t = None \<Longrightarrow>
     CreatesCycleByHashes d s t =
       Some (Inl (if map_of (vertices d) s = None then SourceVertexNotFound
                  else TargetVertexNotFound), d)"
  by (auto simp: CreatesCycleByHashes_def split: option.splits)

theorem CreatesCycleByHashes_missing_witness:
  "(map_of (vertices abc) ''Z'' = None \<or> map_of (vertices abc) ''A'' = None) \<and>
   CreatesCycleByHashes abc ''Z'' ''A'' = Some (Inl SourceVertexNotFound, abc) \<and>
   (map_of (vertices abc) ''A'' = None \<or> map_of (vertices abc) ''Z'' = None) \<and>
   CreatesCycleByHashes abc ''A'' ''Z'' = Some (Inl TargetVertexNotFound, abc)"
proof -
  have h1: "map_of (vertices abc) ''Z'' = None \<or> map_of (vertices abc) ''A'' = None"
    by (simp add: abc_def)
  have h2: "map_of (vertices abc) ''A'' = None \<or> map_of (vertices abc) ''Z'' = None"
    by (simp add: abc_def)
  have v: "map_of (vertices abc) ''Z'' = None" "map_of (vertices abc) ''A'' \<noteq> None"
    by (simp_all add: abc_def)
  show ?thesis
    using h1 h2 v CreatesCycleByHashes_missing[OF h1] CreatesCycleByHashes_missing[OF h2]
    by simp
qed

text \<open>
  C9 as stated fails: with the callback \<open>grow\<close>, which at every vertex it is shown adds a
  new vertex and an edge to it, neither \<^verbatim>\<open>DFSByHash\<close> nor \<^verbatim>\<open>BFSByHash\<close> returns on the
  graph with the single vertex \<^verbatim>\<open>v\<close>.
\<close>

theorem traversals_diverge_counterexample:
  "DFSByHash_live [] sprout ''v'' grow () = None \<and>
   BFSByHash_live [] sprout ''v'' grow () = None"
  using DFSByHash_live_grow BFSByHash_live_grow by simp

text \<open>
  C9 (as amended): for every graph, start identifier and callback state, and every
  callback that returns the graph as it got it, \<^verbatim>\<open>DFSByHash\<close> and \<^verbatim>\<open>BFSByHash\<close> return.
  The loop of each ends with the graph as it was and with at most one push (enqueue) more
  than the forward index has entries. A round of the depth-first loop either pops a
  visited vertex and changes nothing else, or stops, or marks the popped vertex visited; a
  round of the breadth-first loop either stops or dequeues one vertex and enqueues
  distinct vertices that were not visited, marking them.
\<close>

theorem traversals_terminate_fixed_graph:
  assumes "leaves_graph visit"
  shows
  "(\<exists>r. DFSByHash_live zeroT d h visit cb = Some r) \<and>
   (\<exists>r. BFSByHash_live zeroT d h visit cb = Some r) \<and>
   (\<exists>st. dfs_loop_live zeroT visit (d, dfs_init h cb) = Some (d, st) \<and>
         dfs_pushes st \<le> entryTotal (outEdges d) + 1) \<and>
   (\<exists>st. bfs_loop_live zeroT visit (d, bfs_init h cb) = Some (d, st) \<and>
         bfs_enqueues st \<le> entryTotal (outEdges d) + 1) \<and>
   (dfs_cond s1 \<longrightarrow>
      (if last (dfs_stack s1) \<in> dfs_visited s1
       then dfs_body_live zeroT visit (d, s1) = (d, s1\<lparr>dfs_stack := butlast (dfs_stack s1)\<rparr>)
       else dfs_stopped (snd (dfs_body_live zeroT visit (d, s1))) \<or>
            dfs_visited (snd (dfs_body_live zeroT visit (d, s1)))
              = insert (last (dfs_stack s1)) (dfs_visited s1))) \<and>
   (bfs_cond s2 \<longrightarrow>
      bfs_stopped (snd (bfs_body_live zeroT visit (d, s2))) \<or>
      (\<exists>new. bfs_queue (snd (bfs_body_live zeroT visit (d, s2))) = tl (bfs_queue s2) @ new \<and>
             distinct new \<and> set new \<inter> bfs_visited s2 = {} \<and>
             bfs_visited (snd (bfs_body_live zeroT visit (d, s2))) = bfs_visited s2 \<union> set new))"
proof (intro conjI impI)
  let ?v = "at_graph visit d"
  show "\<exists>r. DFSByHash_live zeroT d h visit cb = Some r"
    using DFSByHash_total[of zeroT d h ?v cb] by (auto simp: DFSByHash_live_fixed[OF assms])
  show "\<exists>r. BFSByHash_live zeroT d h visit cb = Some r"
    using BFSByHash_total[of zeroT d h ?v cb] by (auto simp: BFSByHash_live_fixed[OF assms])
  show "\<exists>st. dfs_loop_live zeroT visit (d, dfs_init h cb) = Some (d, st) \<and>
         dfs_pushes st \<le> entryTotal (outEdges d) + 1"
    using dfs_loop_bounded[of zeroT d ?v h cb] by (auto simp: dfs_loop_live_fixed[OF assms])
  show "\<exists>st. bfs_loop_live zeroT visit (d, bfs_init h cb) = Some (d, st) \<and>
         bfs_enqueues st \<le> entryTotal (outEdges d) + 1"
    using bfs_loop_bounded[of zeroT d ?v h cb] by (auto simp: bfs_loop_live_fixed[OF assms])
next
  assume "dfs_cond s1"
  then show "if last (dfs_stack s1) \<in> dfs_visited s1
       then dfs_body_live zeroT visit (d, s1) = (d, s1\<lparr>dfs_stack := butlast (dfs_stack s1)\<rparr>)
       else dfs_stopped (snd (dfs_body_live zeroT visit (d, s1))) \<or>
            dfs_visited (snd (dfs_body_live zeroT visit (d, s1)))
              = insert (last (dfs_stack s1)) (dfs_visited s1)"
    using dfs_round[of s1 zeroT d "at_graph visit d"]
    by (simp add: dfs_body_live_fixed[OF assms])
next
  assume "bfs_cond s2"
  then show "bfs_stopped (snd (bfs_body_live zeroT visit (d, s2))) \<or>
      (\<exists>new. bfs_queue (snd (bfs_body_live zeroT visit (d, s2))) = tl (bfs_queue s2) @ new \<and>
             distinct new \<and> set new \<inter> bfs_visited s2 = {} \<and>
             bfs_visited (snd (bfs_body_live zeroT visit (d, s2))) = bfs_visited s2 \<union> set new)"
    using bfs_round[of s2 zeroT d "at_graph visit d"]
    by (simp add: bfs_body_live_fixed[OF assms])
qed

theorem traversals_terminate_fixed_graph_witness:
  "leaves_graph (\<lambda>v s (d :: (string, string) directed). (v = ''B'', s @ [v], d)) \<and>
   dfs_cond (dfs_init ''A'' ([] :: string list)) \<and>
   bfs_cond (bfs_init ''A'' ([] :: string list)) \<and>
   DFSByHash_live [] abc ''A'' (\<lambda>v s d. (v = ''B'', s @ [v], d)) [] =
     Some (None, [''A'', ''B''], [''A'', ''B''], abc) \<and>
   BFSByHash_live [] abc ''A'' (\<lambda>v s d. (v = ''B'', s @ [v], d)) [] =
     Some (None, [''A'', ''B''], [''A'', ''B''], abc) \<and>
   (\<exists>st. dfs_loop_live [] (\<lambda>v s d. (v = ''B'', s @ [v], d)) (abc, dfs_init ''A'' [])
            = Some (abc, st) \<and> dfs_pushes st \<le> 3) \<and>
   (\<exists>st. bfs_loop_live [] (\<lambda>v s d. (v = ''B'', s @ [v], d)) (abc, bfs_init ''A'' [])
            = Some (abc, st) \<and> bfs_enqueues st \<le> 3)"
proof -
  have l: "leaves_graph (\<lambda>v s (d :: (string, string) directed). (v = ''B'', s @ [v], d))"
    by (simp add: leaves_graph_def)
  have c: "dfs_cond (dfs_init ''A'' ([] :: string list))"
    "bfs_cond (bfs_init ''A'' ([] :: string list))"
    by (simp_all add: engine_defs)
  have e: "entryTotal (outEdges abc) + 1 = 3" by (simp add: abc_def entryTotal_def)
  have d: "DFSByHash_live [] abc ''A'' (\<lambda>v s d. (v = ''B'', s @ [v], d)) [] =
     Some (None, [''A'', ''B''], [''A'', ''B''], abc)"
    by (simp add: abc_def engine_defs live_defs)
  have b: "BFSByHash_live [] abc ''A'' (\<lambda>v s d. (v = ''B'', s @ [v], d)) [] =
     Some (None, [''A'', ''B''], [''A'', ''B''], abc)"
    by (simp add: abc_def engine_defs live_defs)
  show ?thesis
    using l c d b
      traversals_terminate_fixed_graph[OF l, where zeroT = "[]" and d = abc and h = "''A''"
        and cb = "[]" and ?s1.0 = "dfs_init ''A'' []" and ?s2.0 = "bfs_init ''A'' []"]
    unfolding e by blast
qed

text \<open>
  C10: edge lookup follows the orientation. Take a graph built from an empty one by the
  calls \<open>cs1\<close>, add the edge (s, t) with success for distinct s and t, and go on with the
  calls \<open>cs2\<close>. If no add of (t, s) succeeded in \<open>cs1\<close> or in \<open>cs2\<close> (none was asked for, or
  each was rejected), then \<^verbatim>\<open>GetEdgeByHashes\<close> finds no edge for (t, s) and finds the
  stored edge for (s, t).
\<close>

theorem GetEdgeByHashes_oriented:
  assumes "s \<noteq> t"
    and "run (newDirected h a) cs1 = Some d"
    and "WeightedEdgeByHashes d s t w = Some (None, d1)"
    and "run d1 cs2 = Some d2"
    and "(t, s) \<notin> set (added (newDirected h a) cs1)"
    and "(t, s) \<notin> set (added d1 cs2)"
  shows "GetEdgeByHashes d2 t s = None \<and>
         GetEdgeByHashes d2 s t =
           Some \<lparr>Source = the (map_of (vertices d) s), Target = the (map_of (vertices d) t),
                 Weight = w\<rparr>"
proof -
  have "GetEdgeByHashes d t s = None"
    using run_not_added[OF GetEdgeByHashes_newDirected assms(5) assms(2)] .
  then have "GetEdgeByHashes d1 t s = None"
    using WeightedEdgeByHashes_GetEdge[OF assms(3), of t s] assms(1) by auto
  then have 1: "GetEdgeByHashes d2 t s = None"
    using run_not_added[OF _ assms(6) assms(4)] by simp
  have "GetEdgeByHashes d1 s t =
           Some \<lparr>Source = the (map_of (vertices d) s), Target = the (map_of (vertices d) t),
                 Weight = w\<rparr>"
    using WeightedEdgeByHashes_GetEdge[OF assms(3), of s t] by simp
  then show ?thesis using 1 run_keeps_edge[OF _ assms(4)] by blast
qed

theorem GetEdgeByHashes_oriented_witness:
  "WeightedEdgeByHashes abc ''B'' ''A'' 5 = Some (Some EdgeCreatesCycle, abc) \<and>
   GetEdgeByHashes abc ''B'' ''A'' = None \<and>
   GetEdgeByHashes abc ''A'' ''B'' = Some \<lparr>Source = ''A'', Target = ''B'', Weight = 0\<rparr>"
proof -
  let ?cs1 = "[AddVertex ''A'', AddVertex ''B'', AddVertex ''C'']"
  let ?cs2 = "[AddEdge ''B'' ''C'' 0, AddEdge ''B'' ''A'' 5]"
  let ?d = "Vertex (Vertex (Vertex (newDirected id True) ''A'') ''B'') ''C''"
  let ?e = "\<lparr>Source = ''A'', Target = ''B'', Weight = 0\<rparr>"
  have r: "WeightedEdgeByHashes abc ''B'' ''A'' 5 = Some (Some EdgeCreatesCycle, abc)"
    by (simp add: abc_def engine_defs)
  have h1: "''A'' \<noteq> ''B''" by simp
  have h2: "run (newDirected id True) ?cs1 = Some ?d"
    by simp
  have h3: "WeightedEdgeByHashes ?d ''A'' ''B'' 0 = Some (None, addEdge ?d ''A'' ''B'' ?e)"
    by (simp add: engine_defs)
  have bc: "WeightedEdgeByHashes (addEdge ?d ''A'' ''B'' ?e) ''B'' ''C'' 0 = Some (None, abc)"
    by (simp add: abc_def engine_defs)
  have h4: "run (addEdge ?d ''A'' ''B'' ?e) ?cs2 = Some abc"
    by (simp add: bc r)
  have h5: "(''B'', ''A'') \<notin> set (added (newDirected id True) ?cs1)"
    by simp
  have h6: "(''B'', ''A'') \<notin> set (added (addEdge ?d ''A'' ''B'' ?e) ?cs2)"
    by (simp add: bc r)
  have v: "map_of (vertices ?d) ''A'' = Some ''A''" "map_of (vertices ?d) ''B'' = Some ''B''"
    by (simp_all add: engine_defs)
  show ?thesis using r GetEdgeByHashes_oriented[OF h1 h2 h3 h4 h5 h6] v by simp
qed

end
